theory Spec2Isabelle
  imports Main "HOL-Library.Sublist"
begin

section \<open>The view line renderer (vs/editor/common/viewLayout/viewLineRenderer.ts)\<close>

subsection \<open>JavaScript strings and numbers\<close>

text \<open>
  A JavaScript string is a sequence of UTF-16 code units; a code unit is modelled by its
  numeric value. \<open>lit\<close> turns an ASCII literal of the source into such a sequence.
\<close>

type_synonym jsstring = "nat list"

definition lit :: "string \<Rightarrow> jsstring" where
  "lit s = map of_char s"

text \<open>
  The numbers the renderer computes indices, columns and offsets with are integer valued,
  with two exceptions: the remainder by zero is \<open>NaN\<close>, and \<open>NaN\<close> is absorbing in
  arithmetic and makes every comparison false. \<open>Undefined\<close> is what a hole of an array
  holds. The inputs \<open>tabSize\<close>, \<open>stopRenderingLineAfter\<close> and \<open>startIndex\<close> are taken to be
  integers in the range where JavaScript's arithmetic is exact.
\<close>

datatype number = Num int | NaN | Undefined

fun num_add :: "number \<Rightarrow> number \<Rightarrow> number" where
  "num_add (Num a) (Num b) = Num (a + b)"
| "num_add _ _ = NaN"

fun num_sub :: "number \<Rightarrow> number \<Rightarrow> number" where
  "num_sub (Num a) (Num b) = Num (a - b)"
| "num_sub _ _ = NaN"

text \<open>The operator \<^verbatim>\<open>%\<close>: the result has the sign of the dividend.\<close>

fun num_rem :: "number \<Rightarrow> number \<Rightarrow> number" where
  "num_rem (Num a) (Num b) = (if b = 0 then NaN else Num (sgn a * (\<bar>a\<bar> mod \<bar>b\<bar>)))"
| "num_rem _ _ = NaN"

fun num_gt :: "number \<Rightarrow> number \<Rightarrow> bool" where
  "num_gt (Num a) (Num b) = (b < a)"
| "num_gt _ _ = False"

text \<open>
  \<open>spaceWidth\<close> is any JavaScript number, as a rule not a whole one. The renderer
  multiplies it with a count of glyphs and concatenates the product into the markup, and
  does nothing else with it. Floating-point multiplication and the conversion of a number
  to its text are not modelled but taken as parameters: \<open>'w\<close> is the type of such numbers,
  \<open>timesCount w n\<close> is the product \<^verbatim>\<open>w * n\<close> for a count \<open>n\<close>, and \<open>toText w\<close> is the text
  that concatenation with a string produces for \<open>w\<close>. The text of a number consists of
  digits, the point, the signs, the exponent mark and the letters of \<^verbatim>\<open>NaN\<close> and
  \<^verbatim>\<open>Infinity\<close>.
\<close>

datatype numchar =
  Digit nat | Point | MinusSign | PlusSign | ExponentMark
  | Letter_N | Letter_a | Letter_I | Letter_n | Letter_f | Letter_i | Letter_t | Letter_y

fun numcharCode :: "numchar \<Rightarrow> nat" where
  "numcharCode (Digit d) = 48 + d mod 10"
| "numcharCode Point = 46"
| "numcharCode MinusSign = 45"
| "numcharCode PlusSign = 43"
| "numcharCode ExponentMark = 101"
| "numcharCode Letter_N = 78"
| "numcharCode Letter_a = 97"
| "numcharCode Letter_I = 73"
| "numcharCode Letter_n = 110"
| "numcharCode Letter_f = 102"
| "numcharCode Letter_i = 105"
| "numcharCode Letter_t = 116"
| "numcharCode Letter_y = 121"

record 'w numberOps =
  timesCount :: "'w \<Rightarrow> nat \<Rightarrow> 'w"
  toText :: "'w \<Rightarrow> numchar list"

text \<open>\<^verbatim>\<open>s.charCodeAt(i)\<close> is \<open>NaN\<close> out of range (here \<open>None\<close>); \<^verbatim>\<open>s.charAt(i)\<close> is empty there.\<close>

definition charCodeAt :: "jsstring \<Rightarrow> nat \<Rightarrow> nat option" where
  "charCodeAt s i = (if i < length s then Some (s ! i) else None)"

definition charAt :: "jsstring \<Rightarrow> nat \<Rightarrow> jsstring" where
  "charAt s i = (if i < length s then [s ! i] else [])"

text \<open>\<^verbatim>\<open>s.indexOf(pat)\<close>: the first position at which \<open>pat\<close> occurs, or \<open>-1\<close>.\<close>

fun indexOf_from :: "jsstring \<Rightarrow> jsstring \<Rightarrow> nat \<Rightarrow> int" where
  "indexOf_from [] pat i = (if pat = [] then int i else - 1)"
| "indexOf_from (c # cs) pat i =
     (if prefix pat (c # cs) then int i else indexOf_from cs pat (i + 1))"

definition indexOf :: "jsstring \<Rightarrow> jsstring \<Rightarrow> int" where
  "indexOf s pat = indexOf_from s pat 0"

text \<open>
  \<^verbatim>\<open>a[i] = v\<close> on an array: an element in range is replaced, the element just past the end is
  appended, and a store further out leaves holes in between.
\<close>

definition array_set :: "number list \<Rightarrow> nat \<Rightarrow> number \<Rightarrow> number list" where
  "array_set a i v =
     (if i < length a then a[i := v] else a @ replicate (i - length a) Undefined @ [v])"

subsection \<open>Character codes\<close>

text \<open>
  Modelled from the spec: the enumeration \<^verbatim>\<open>CharCode\<close> (vs/base/common/charCode) is not part
  of the sources at hand. Its members used by the renderer are the characters the
  specification names (tab, plain space, \<^verbatim>\<open><\<close>, \<^verbatim>\<open>>\<close>, \<^verbatim>\<open>&\<close>, NUL, byte-order mark, the line
  separator U+2028, the hard space, carriage return), with their Unicode code points.
\<close>

definition CharCode_Null :: nat where "CharCode_Null = 0"
definition CharCode_Tab :: nat where "CharCode_Tab = 9"
definition CharCode_CarriageReturn :: nat where "CharCode_CarriageReturn = 13"
definition CharCode_Space :: nat where "CharCode_Space = 32"
definition CharCode_Ampersand :: nat where "CharCode_Ampersand = 38"
definition CharCode_LessThan :: nat where "CharCode_LessThan = 60"
definition CharCode_GreaterThan :: nat where "CharCode_GreaterThan = 62"
definition CharCode_HardSpace :: nat where "CharCode_HardSpace = 160"
definition CharCode_LINE_SEPARATOR_2028 :: nat where "CharCode_LINE_SEPARATOR_2028 = 8232"
definition CharCode_UTF8_BOM :: nat where "CharCode_UTF8_BOM = 65279"

subsection \<open>Render request and render result\<close>

text \<open>
  Modelled from the spec: the class \<^verbatim>\<open>ViewLineToken\<close> (vs/editor/common/core/viewLineToken)
  is not part of the sources at hand; the renderer reads its \<^verbatim>\<open>startIndex\<close> and its
  \<^verbatim>\<open>type\<close>, the category label.
\<close>

record ViewLineToken =
  startIndex :: int
  type :: jsstring

datatype RenderWhitespace = RW_none | RW_boundary | RW_all

record 'w RenderLineInput =
  lineContent :: jsstring
  tabSize :: int
  spaceWidth :: 'w
  stopRenderingLineAfter :: int
  renderWhitespace :: RenderWhitespace
  renderHardSpace :: bool
  renderControlCharacters :: bool
  parts :: "ViewLineToken list"

record RenderLineOutput =
  charOffsetInPart :: "number list"
  lastRenderedPartIndex :: int
  output' :: jsstring

datatype error = Error string

subsection \<open>Helper predicates\<close>

definition isWhitespace :: "jsstring \<Rightarrow> bool" where
  "isWhitespace ty = (0 \<le> indexOf ty (lit ''whitespace''))"

definition isControlCharacter :: "nat \<Rightarrow> bool" where
  "isControlCharacter characterCode = (characterCode < 32)"

definition controlCharacterSequenceConversionStart :: nat where
  "controlCharacterSequenceConversionStart = 9216"

text \<open>\<^verbatim>\<open>String.fromCharCode\<close> keeps the low 16 bits of its argument.\<close>

definition controlCharacterToPrintable :: "nat \<Rightarrow> jsstring" where
  "controlCharacterToPrintable characterCode =
     [(controlCharacterSequenceConversionStart + characterCode) mod 65536]"

subsection \<open>The local variables of \<^verbatim>\<open>renderLineActual\<close>\<close>

text \<open>
  The mutable locals of \<^verbatim>\<open>renderLineActual\<close>, passed from one loop iteration to the next.
  The local \<^verbatim>\<open>charOffsetInPart\<close> carries a prime, the result's field has the plain name.
  \<^verbatim>\<open>partContentCnt\<close> and \<^verbatim>\<open>partContent\<close> are the block locals of the whitespace branch,
  initialised anew whenever that branch is entered.
\<close>

record locals =
  charIndex :: nat
  out :: jsstring
  charOffsetInPartArr :: "number list"
  charOffsetInPart' :: number
  tabsCharDelta :: number
  partContentCnt :: nat
  partContent :: jsstring

text \<open>A loop either leaves the function through \<^verbatim>\<open>return\<close> or falls through to the code after it.\<close>

datatype loop_exit = Return RenderLineOutput | Continue locals

text \<open>
  The renderer's functions take the render request itself; \<^verbatim>\<open>renderLine\<close> hands its fields
  on unchanged, together with the two values it computes from them. The functions that
  print a width take the number operations \<open>js\<close> as well.
\<close>

definition lineTextLength :: "'w RenderLineInput \<Rightarrow> nat" where
  "lineTextLength input = length (lineContent input)"

definition charBreakIndex :: "'w RenderLineInput \<Rightarrow> int" where
  "charBreakIndex input =
     (if stopRenderingLineAfter input = - 1 then int (lineTextLength input)
      else stopRenderingLineAfter input - 1)"

subsection \<open>Tabs\<close>

text \<open>\<^verbatim>\<open>tabSize - (charIndex + tabsCharDelta) % tabSize\<close>, the same expression in both branches.\<close>

definition insertSpacesCount :: "'w RenderLineInput \<Rightarrow> locals \<Rightarrow> number" where
  "insertSpacesCount input s =
     num_sub (Num (tabSize input))
       (num_rem (num_add (Num (int (charIndex s))) (tabsCharDelta s)) (Num (tabSize input)))"

text \<open>The plain branch: \<^verbatim>\<open>while (insertSpacesCount > 0) { out += '&nbsp;'; insertSpacesCount--; }\<close>\<close>

function insertSpaces :: "number \<Rightarrow> jsstring \<Rightarrow> jsstring" where
  "insertSpaces n str =
     (if num_gt n (Num 0) then insertSpaces (num_sub n (Num 1)) (str @ lit ''&nbsp;'')
      else str)"
  by pat_completeness auto
termination
proof (relation "measure (\<lambda>(n, str). case n of Num k \<Rightarrow> nat k | _ \<Rightarrow> 0)")
  fix n :: number and str :: jsstring
  assume "num_gt n (Num 0)"
  then show "((num_sub n (Num 1), str @ lit ''&nbsp;''), (n, str))
      \<in> measure (\<lambda>(n, str). case n of Num k \<Rightarrow> nat k | _ \<Rightarrow> 0)"
    by (cases n) auto
qed simp

text \<open>
  The whitespace branch: an arrow for the first column, then non-breaking spaces, each
  glyph counted.
\<close>

function insertCountedSpaces :: "number \<Rightarrow> jsstring \<Rightarrow> nat \<Rightarrow> jsstring \<times> nat" where
  "insertCountedSpaces n str cnt =
     (if num_gt n (Num 0)
      then insertCountedSpaces (num_sub n (Num 1)) (str @ lit ''&nbsp;'') (cnt + 1)
      else (str, cnt))"
  by pat_completeness auto
termination
proof (relation "measure (\<lambda>(n, str, cnt). case n of Num k \<Rightarrow> nat k | _ \<Rightarrow> 0)")
  fix n :: number and str :: jsstring and cnt :: nat
  assume "num_gt n (Num 0)"
  then show "((num_sub n (Num 1), str @ lit ''&nbsp;'', cnt + 1), (n, str, cnt))
      \<in> measure (\<lambda>(n, str, cnt). case n of Num k \<Rightarrow> nat k | _ \<Rightarrow> 0)"
    by (cases n) auto
qed simp

definition insertArrowAndSpaces :: "number \<Rightarrow> jsstring \<Rightarrow> nat \<Rightarrow> jsstring \<times> nat" where
  "insertArrowAndSpaces n str cnt =
     (if num_gt n (Num 0)
      then insertCountedSpaces (num_sub n (Num 1)) (str @ lit ''&rarr;'') (cnt + 1)
      else insertCountedSpaces n str cnt)"

subsection \<open>One character of a whitespace part\<close>

text \<open>
  The body of the inner loop of the whitespace branch, up to and including
  \<^verbatim>\<open>charOffsetInPart ++\<close>. A character that is not a tab is taken to be a space.
\<close>

definition renderWhitespaceChar :: "'w RenderLineInput \<Rightarrow> locals \<Rightarrow> locals" where
  "renderWhitespaceChar input s0 =
     (let s = s0\<lparr>charOffsetInPartArr :=
                  array_set (charOffsetInPartArr s0) (charIndex s0) (charOffsetInPart' s0)\<rparr>;
          charCode = charCodeAt (lineContent input) (charIndex s);
          s = (if charCode = Some CharCode_Tab then
                 (let n = insertSpacesCount input s;
                      (str, cnt) = insertArrowAndSpaces n (partContent s) (partContentCnt s)
                  in s\<lparr>tabsCharDelta := num_add (tabsCharDelta s) (num_sub n (Num 1)),
                       charOffsetInPart' := num_add (charOffsetInPart' s) (num_sub n (Num 1)),
                       partContent := str, partContentCnt := cnt\<rparr>)
               else
                 s\<lparr>partContent := partContent s @ lit ''&middot;'',
                   partContentCnt := partContentCnt s + 1\<rparr>)
      in s\<lparr>charOffsetInPart' := num_add (charOffsetInPart' s) (Num 1)\<rparr>)"

subsection \<open>One character of a plain part\<close>

text \<open>The \<^verbatim>\<open>switch\<close> of the plain branch, as the markup appended for one code unit.\<close>

definition plainCharMarkup :: "'w RenderLineInput \<Rightarrow> nat \<Rightarrow> nat option \<Rightarrow> jsstring" where
  "plainCharMarkup input i charCode =
     (if charCode = Some CharCode_Space then lit ''&nbsp;''
      else if charCode = Some CharCode_LessThan then lit ''&lt;''
      else if charCode = Some CharCode_GreaterThan then lit ''&gt;''
      else if charCode = Some CharCode_Ampersand then lit ''&amp;''
      else if charCode = Some CharCode_Null then lit ''&#00;''
      else if charCode = Some CharCode_UTF8_BOM \<or> charCode = Some CharCode_LINE_SEPARATOR_2028
        then [65533]
      else if charCode = Some CharCode_HardSpace then
        (if renderHardSpace input then lit ''&middot;'' else charAt (lineContent input) i)
      else if charCode = Some CharCode_CarriageReturn then lit ''&#8203''
      else
        (case charCode of
           Some c \<Rightarrow>
             if renderControlCharacters input \<and> isControlCharacter c
             then controlCharacterToPrintable c
             else charAt (lineContent input) i
         | None \<Rightarrow> charAt (lineContent input) i))"

text \<open>
  The body of the inner loop of the plain branch, up to and including
  \<^verbatim>\<open>charOffsetInPart ++\<close>. The tab is the first case of the \<^verbatim>\<open>switch\<close>.
\<close>

definition renderPlainChar :: "'w RenderLineInput \<Rightarrow> locals \<Rightarrow> locals" where
  "renderPlainChar input s0 =
     (let s = s0\<lparr>charOffsetInPartArr :=
                  array_set (charOffsetInPartArr s0) (charIndex s0) (charOffsetInPart' s0)\<rparr>;
          charCode = charCodeAt (lineContent input) (charIndex s);
          s = (if charCode = Some CharCode_Tab then
                 (let n = insertSpacesCount input s
                  in s\<lparr>tabsCharDelta := num_add (tabsCharDelta s) (num_sub n (Num 1)),
                       charOffsetInPart' := num_add (charOffsetInPart' s) (num_sub n (Num 1)),
                       out := insertSpaces n (out s)\<rparr>)
               else
                 s\<lparr>out := out s @ plainCharMarkup input (charIndex s) charCode\<rparr>)
      in s\<lparr>charOffsetInPart' := num_add (charOffsetInPart' s) (Num 1)\<rparr>)"

subsection \<open>The inner loops\<close>

text \<open>
  \<^verbatim>\<open>for (; charIndex < toCharIndex; charIndex++)\<close> of the whitespace branch. When the
  character just rendered is at or past the break index, the part is closed with its width
  and an ellipsis, the entry of this character is overwritten and the function returns.
\<close>

definition whitespaceSpanOpen ::
  "'w numberOps \<Rightarrow> 'w RenderLineInput \<Rightarrow> ViewLineToken \<Rightarrow> locals \<Rightarrow> jsstring" where
  \<open>whitespaceSpanOpen js input part s =
     lit ''<span class="token '' @ type part @ lit ''" style="width:''
       @ map numcharCode (toText js (timesCount js (spaceWidth input) (partContentCnt s)))
       @ lit ''px">''\<close>

function whitespaceLoop ::
  "'w numberOps \<Rightarrow> 'w RenderLineInput \<Rightarrow> ViewLineToken \<Rightarrow> nat \<Rightarrow> int \<Rightarrow> locals \<Rightarrow> loop_exit" where
  "whitespaceLoop js input part partIndex toCharIndex s0 =
     (if int (charIndex s0) < toCharIndex then
        (let s = renderWhitespaceChar input s0 in
         if charBreakIndex input \<le> int (charIndex s0) then
           Return \<lparr>charOffsetInPart =
                      array_set (charOffsetInPartArr s) (charIndex s0) (charOffsetInPart' s),
                    lastRenderedPartIndex = int partIndex,
                    output' = out s @ whitespaceSpanOpen js input part s @ partContent s
                      @ lit ''&hellip;</span></span>''\<rparr>
         else whitespaceLoop js input part partIndex toCharIndex (s\<lparr>charIndex := charIndex s0 + 1\<rparr>))
      else Continue s0)"
  by pat_completeness auto
termination
  by (relation "measure (\<lambda>(js, input, part, partIndex, toCharIndex, s).
        nat (toCharIndex - int (charIndex s)))") auto

text \<open>The same loop of the plain branch.\<close>

function plainLoop :: "'w RenderLineInput \<Rightarrow> nat \<Rightarrow> int \<Rightarrow> locals \<Rightarrow> loop_exit" where
  "plainLoop input partIndex toCharIndex s0 =
     (if int (charIndex s0) < toCharIndex then
        (let s = renderPlainChar input s0 in
         if charBreakIndex input \<le> int (charIndex s0) then
           Return \<lparr>charOffsetInPart =
                      array_set (charOffsetInPartArr s) (charIndex s0) (charOffsetInPart' s),
                    lastRenderedPartIndex = int partIndex,
                    output' = out s @ lit ''&hellip;</span></span>''\<rparr>
         else plainLoop input partIndex toCharIndex (s\<lparr>charIndex := charIndex s0 + 1\<rparr>))
      else Continue s0)"
  by pat_completeness auto
termination
  by (relation "measure (\<lambda>(input, partIndex, toCharIndex, s).
        nat (toCharIndex - int (charIndex s)))") auto

subsection \<open>One part\<close>

text \<open>
  The end of a part is the start of the next one, at most the length of the line; the last
  part ends with the line.
\<close>

definition toCharIndex :: "'w RenderLineInput \<Rightarrow> nat \<Rightarrow> int" where
  "toCharIndex input partIndex =
     (if partIndex + 1 < length (parts input)
      then min (int (lineTextLength input)) (startIndex (parts input ! (partIndex + 1)))
      else int (lineTextLength input))"

definition parsRendersWhitespace :: "'w RenderLineInput \<Rightarrow> ViewLineToken \<Rightarrow> bool" where
  "parsRendersWhitespace input part =
     (renderWhitespace input \<noteq> RW_none \<and> isWhitespace (type part))"

text \<open>The body of the loop over the parts, for the part at \<open>partIndex\<close>.\<close>

definition renderPart :: "'w numberOps \<Rightarrow> 'w RenderLineInput \<Rightarrow> nat \<Rightarrow> locals \<Rightarrow> loop_exit" where
  \<open>renderPart js input partIndex s0 =
     (let part = parts input ! partIndex;
          s = s0\<lparr>charOffsetInPart' := Num 0\<rparr>
      in if parsRendersWhitespace input part then
           (case whitespaceLoop js input part partIndex (toCharIndex input partIndex)
                   (s\<lparr>partContentCnt := 0, partContent := []\<rparr>) of
              Return r \<Rightarrow> Return r
            | Continue s' \<Rightarrow>
                Continue (s'\<lparr>out := out s' @ whitespaceSpanOpen js input part s' @ partContent s'
                                 @ lit ''</span>''\<rparr>))
         else
           (case plainLoop input partIndex (toCharIndex input partIndex)
                   (s\<lparr>out := out s @ lit ''<span class="token '' @ type part @ lit ''">''\<rparr>) of
              Return r \<Rightarrow> Return r
            | Continue s' \<Rightarrow> Continue (s'\<lparr>out := out s' @ lit ''</span>''\<rparr>)))\<close>

subsection \<open>The loop over the parts and the renderer\<close>

function partsLoop :: "'w numberOps \<Rightarrow> 'w RenderLineInput \<Rightarrow> nat \<Rightarrow> locals \<Rightarrow> loop_exit" where
  "partsLoop js input partIndex s =
     (if partIndex < length (parts input) then
        (case renderPart js input partIndex s of
           Return r \<Rightarrow> Return r
         | Continue s' \<Rightarrow> partsLoop js input (partIndex + 1) s')
      else Continue s)"
  by pat_completeness auto
termination
  by (relation "measure (\<lambda>(js, input, partIndex, s). length (parts input) - partIndex)") auto

definition initialLocals :: locals where
  "initialLocals =
     \<lparr>charIndex = 0, out = lit ''<span>'', charOffsetInPartArr = [],
      charOffsetInPart' = Num 0, tabsCharDelta = Num 0, partContentCnt = 0, partContent = []\<rparr>"

definition renderLineActual :: "'w numberOps \<Rightarrow> 'w RenderLineInput \<Rightarrow> RenderLineOutput" where
  "renderLineActual js input =
     (case partsLoop js input 0 initialLocals of
        Return r \<Rightarrow> r
      | Continue s \<Rightarrow>
          \<lparr>charOffsetInPart = charOffsetInPartArr s @ [charOffsetInPart' s],
           lastRenderedPartIndex = int (length (parts input)) - 1,
           output' = out s @ lit ''</span>''\<rparr>)"

definition renderLine :: "'w numberOps \<Rightarrow> 'w RenderLineInput \<Rightarrow> error + RenderLineOutput" where
  "renderLine js input =
     (if lineTextLength input = 0 then
        Inr \<lparr>charOffsetInPart = [], lastRenderedPartIndex = 0,
             output' = lit ''<span><span>&nbsp;</span></span>''\<rparr>
      else if length (parts input) = 0 then
        Inl (Error ''Cannot render non empty line without line parts!'')
      else Inr (renderLineActual js input))"

subsection \<open>Number operations for the examples\<close>

text \<open>
  An instance of the number operations, used where a theorem is applied to a given request:
  whole-number widths with exact products, printed in decimal. JavaScript agrees with it
  as long as the product is exactly representable and below \<open>10\<^sup>2\<^sup>1\<close> in absolute value.
  No theorem about the renderer depends on it.
\<close>

function decimalDigits :: "nat \<Rightarrow> numchar list" where
  "decimalDigits n =
     (if n < 10 then [Digit n] else decimalDigits (n div 10) @ [Digit (n mod 10)])"
  by pat_completeness auto
termination
  by (relation "measure (\<lambda>n. n)") auto

definition decimalText :: "int \<Rightarrow> numchar list" where
  "decimalText i = (if i < 0 then MinusSign # decimalDigits (nat (- i)) else decimalDigits (nat i))"

definition wholeNumbers :: "int numberOps" where
  "wholeNumbers = \<lparr>timesCount = (\<lambda>w n. w * int n), toText = decimalText\<rparr>"

subsection \<open>Invariants and auxiliary functions of the proofs\<close>

text \<open>
  Nothing below is part of the renderer. \<open>tableInv\<close> is the invariant of the three loops
  that the offset table has one entry for each index already rendered and that no index at
  or past the break index has been rendered yet; \<open>truncatedResult\<close> describes the result of
  the early return.
\<close>

definition tableInv :: "'w RenderLineInput \<Rightarrow> locals \<Rightarrow> bool" where
  "tableInv input s \<longleftrightarrow>
     length (charOffsetInPartArr s) = charIndex s
     \<and> charIndex s \<le> nat (charBreakIndex input)
     \<and> charIndex s \<le> lineTextLength input"

definition truncatedResult :: "'w RenderLineInput \<Rightarrow> nat \<Rightarrow> RenderLineOutput \<Rightarrow> bool" where
  "truncatedResult input k r \<longleftrightarrow>
     length (charOffsetInPart r) = nat (charBreakIndex input) + 1
     \<and> charBreakIndex input < int (lineTextLength input)
     \<and> lastRenderedPartIndex r = int k
     \<and> suffix (lit ''&hellip;</span></span>'') (output' r)"

text \<open>
  The visual column of a character index, in the words of the specification: the raw index
  plus the extra columns of the tabs before it, a tab reaching to the next tab stop. It is
  defined from the text alone and compared with what the loops compute; it is meant for
  tab sizes of at least 1. \<open>partStart\<close> is the index at which the loop over the parts
  enters part \<open>k\<close> when the line has not been cut before.
\<close>

fun visualColumn :: "'w RenderLineInput \<Rightarrow> nat \<Rightarrow> int" where
  "visualColumn input 0 = 0"
| "visualColumn input (Suc i) =
     (if charCodeAt (lineContent input) i = Some CharCode_Tab
      then visualColumn input i + (tabSize input - visualColumn input i mod tabSize input)
      else visualColumn input i + 1)"

fun partStart :: "'w RenderLineInput \<Rightarrow> nat \<Rightarrow> nat" where
  "partStart input 0 = 0"
| "partStart input (Suc k) = max (partStart input k) (nat (toCharIndex input k))"

text \<open>
  The invariants of the inner loops (\<open>offsetInv\<close>, \<open>loopInv\<close>) and of the loop over the
  parts (\<open>partsDone\<close>, \<open>partsInv\<close>): every entry of the offset table is the visual column
  of its index relative to the one at which its part was entered. \<open>truncatedTable\<close> is the
  table of the early return, whose last entry is the offset after the character.
\<close>

definition offsetInv :: "'w RenderLineInput \<Rightarrow> nat \<Rightarrow> number list \<Rightarrow> locals \<Rightarrow> bool" where
  "offsetInv input c0 A0 s \<longleftrightarrow>
     tableInv input s \<and> c0 \<le> charIndex s \<and> length A0 = c0
     \<and> charOffsetInPartArr s
         = A0 @ map (\<lambda>i. Num (visualColumn input i - visualColumn input c0)) [c0..<charIndex s]
     \<and> charOffsetInPart' s = Num (visualColumn input (charIndex s) - visualColumn input c0)
     \<and> tabsCharDelta s = Num (visualColumn input (charIndex s) - int (charIndex s))"

definition loopInv :: "'w RenderLineInput \<Rightarrow> int \<Rightarrow> nat \<Rightarrow> number list \<Rightarrow> locals \<Rightarrow> bool" where
  "loopInv input to c0 A0 s \<longleftrightarrow>
     offsetInv input c0 A0 s \<and> (charIndex s = c0 \<or> int (charIndex s) \<le> to)"

definition truncatedTable :: "'w RenderLineInput \<Rightarrow> nat \<Rightarrow> number list \<Rightarrow> int \<Rightarrow> RenderLineOutput \<Rightarrow> bool" where
  "truncatedTable input c0 A0 to r \<longleftrightarrow>
     c0 \<le> nat (charBreakIndex input) \<and> int (nat (charBreakIndex input)) < to
     \<and> charOffsetInPart r
         = A0 @ map (\<lambda>i. Num (visualColumn input i - visualColumn input c0))
                  [c0..<nat (charBreakIndex input)]
              @ [Num (visualColumn input (Suc (nat (charBreakIndex input)))
                       - visualColumn input c0)]"

definition partsDone :: "'w RenderLineInput \<Rightarrow> nat \<Rightarrow> number list \<Rightarrow> bool" where
  "partsDone input k A \<longleftrightarrow>
     (\<forall>k'<k. \<forall>i. partStart input k' \<le> i \<and> i < partStart input (Suc k') \<longrightarrow>
        A ! i = Num (visualColumn input i - visualColumn input (partStart input k')))"

definition partsInv :: "'w RenderLineInput \<Rightarrow> nat \<Rightarrow> locals \<Rightarrow> bool" where
  "partsInv input k s \<longleftrightarrow>
     tableInv input s \<and> k \<le> length (parts input) \<and> charIndex s = partStart input k
     \<and> tabsCharDelta s = Num (visualColumn input (charIndex s) - int (charIndex s))
     \<and> partsDone input k (charOffsetInPartArr s)
     \<and> (0 < k \<longrightarrow> charOffsetInPart' s
           = Num (visualColumn input (partStart input k) - visualColumn input (partStart input (k - 1))))"

text \<open>
  The contract of the caller for the list of parts: not empty, the first part starting at
  index 0, the start indices ascending.
\<close>

definition validParts :: "'w RenderLineInput \<Rightarrow> bool" where
  "validParts input \<longleftrightarrow>
     parts input \<noteq> [] \<and> startIndex (parts input ! 0) = 0
     \<and> sorted (map startIndex (parts input))"

text \<open>
  The glyphs of the whitespace branch, and the invariant that the buffered content of a
  part consists of as many glyphs as were counted.
\<close>

definition whitespaceGlyphs :: "jsstring set" where
  "whitespaceGlyphs = {lit ''&rarr;'', lit ''&nbsp;'', lit ''&middot;''}"

definition glyphInv :: "jsstring \<Rightarrow> locals \<Rightarrow> bool" where
  "glyphInv out0 s \<longleftrightarrow>
     out s = out0
     \<and> (\<exists>gs. set gs \<subseteq> whitespaceGlyphs \<and> partContent s = concat gs
            \<and> partContentCnt s = length gs)"

text \<open>Markup without a carriage return, and the invariant that none has been emitted.\<close>

definition noCR :: "jsstring \<Rightarrow> bool" where
  "noCR str \<longleftrightarrow> CharCode_CarriageReturn \<notin> set str"

definition crInv :: "locals \<Rightarrow> bool" where
  "crInv s \<longleftrightarrow> noCR (out s) \<and> noCR (partContent s)"






section \<open>Basic facts\<close>

lemmas CharCode_defs =
  CharCode_Null_def CharCode_Tab_def CharCode_CarriageReturn_def CharCode_Space_def
  CharCode_Ampersand_def CharCode_LessThan_def CharCode_GreaterThan_def
  CharCode_HardSpace_def CharCode_LINE_SEPARATOR_2028_def CharCode_UTF8_BOM_def

lemma charIndex_renderWhitespaceChar [simp]:
  "charIndex (renderWhitespaceChar input s) = charIndex s"
  by (simp add: renderWhitespaceChar_def Let_def split: prod.splits)

lemma charIndex_renderPlainChar [simp]:
  "charIndex (renderPlainChar input s) = charIndex s"
  by (simp add: renderPlainChar_def Let_def)

section \<open>The empty line\<close>

text \<open>
  Claim C5. A request whose text has length zero is answered with the fixed markup of a
  single non-breaking space in a nested span, an empty offset table and the part index 0,
  whatever the other options are, an empty list of parts included.
\<close>

theorem renderLine_empty_line:
  "lineContent input = [] \<Longrightarrow>
   renderLine js input =
     Inr \<lparr>charOffsetInPart = [], lastRenderedPartIndex = 0,
          output' = lit ''<span><span>&nbsp;</span></span>''\<rparr>"
  by (simp add: renderLine_def lineTextLength_def)

theorem renderLine_empty_line_witness:
  "lineContent \<lparr>lineContent = [], tabSize = 4, spaceWidth = (7::int), stopRenderingLineAfter = 0,
      renderWhitespace = RW_all, renderHardSpace = True, renderControlCharacters = True,
      parts = []\<rparr> = []
   \<and> renderLine wholeNumbers \<lparr>lineContent = [], tabSize = 4, spaceWidth = (7::int), stopRenderingLineAfter = 0,
      renderWhitespace = RW_all, renderHardSpace = True, renderControlCharacters = True,
      parts = []\<rparr>
     = Inr \<lparr>charOffsetInPart = [], lastRenderedPartIndex = 0,
            output' = lit ''<span><span>&nbsp;</span></span>''\<rparr>"
  using renderLine_empty_line
    [where js = wholeNumbers and input = "\<lparr>lineContent = [], tabSize = 4, spaceWidth = (7::int), stopRenderingLineAfter = 0,
      renderWhitespace = RW_all, renderHardSpace = True, renderControlCharacters = True,
      parts = []\<rparr>"]
  by simp

section \<open>The only failure\<close>



section \<open>Invariant rules for the loops\<close>

text \<open>
  A property that holds when a loop is entered and that every iteration preserves holds
  when the loop is left; if the loop returns early, it held before the iteration that
  returned.
\<close>

lemma plainLoop_rule:
  assumes init: "Q s0"
    and step: "\<And>s. Q s \<Longrightarrow> int (charIndex s) < to \<Longrightarrow> \<not> charBreakIndex input \<le> int (charIndex s)
       \<Longrightarrow> Q ((renderPlainChar input s)\<lparr>charIndex := charIndex s + 1\<rparr>)"
  shows "case plainLoop input k to s0 of
           Continue s' \<Rightarrow> Q s' \<and> \<not> int (charIndex s') < to
         | Return r \<Rightarrow> \<exists>s. Q s \<and> int (charIndex s) < to \<and> charBreakIndex input \<le> int (charIndex s)
              \<and> r = \<lparr>charOffsetInPart = array_set (charOffsetInPartArr (renderPlainChar input s))
                        (charIndex s) (charOffsetInPart' (renderPlainChar input s)),
                      lastRenderedPartIndex = int k,
                      output' = out (renderPlainChar input s) @ lit ''&hellip;</span></span>''\<rparr>"
  using init
proof (induction "nat (to - int (charIndex s0))" arbitrary: s0 rule: less_induct)
  case less
  show ?case
  proof (cases "int (charIndex s0) < to")
    case False
    then show ?thesis using less.prems by (subst plainLoop.simps) simp
  next
    case True
    show ?thesis
    proof (cases "charBreakIndex input \<le> int (charIndex s0)")
      case brk: True
      show ?thesis using True brk less.prems
        by (subst plainLoop.simps) (auto simp: Let_def)
    next
      case brk: False
      have "Q ((renderPlainChar input s0)\<lparr>charIndex := charIndex s0 + 1\<rparr>)"
        using step[OF less.prems True brk] .
      from less.hyps[OF _ this] True show ?thesis
        using True brk by (subst plainLoop.simps) (simp add: Let_def)
    qed
  qed
qed

lemma whitespaceLoop_rule:
  assumes init: "Q s0"
    and step: "\<And>s. Q s \<Longrightarrow> int (charIndex s) < to \<Longrightarrow> \<not> charBreakIndex input \<le> int (charIndex s)
       \<Longrightarrow> Q ((renderWhitespaceChar input s)\<lparr>charIndex := charIndex s + 1\<rparr>)"
  shows "case whitespaceLoop js input part k to s0 of
           Continue s' \<Rightarrow> Q s' \<and> \<not> int (charIndex s') < to
         | Return r \<Rightarrow> \<exists>s. Q s \<and> int (charIndex s) < to \<and> charBreakIndex input \<le> int (charIndex s)
              \<and> r = \<lparr>charOffsetInPart = array_set (charOffsetInPartArr (renderWhitespaceChar input s))
                        (charIndex s) (charOffsetInPart' (renderWhitespaceChar input s)),
                      lastRenderedPartIndex = int k,
                      output' = out (renderWhitespaceChar input s)
                        @ whitespaceSpanOpen js input part (renderWhitespaceChar input s)
                        @ partContent (renderWhitespaceChar input s)
                        @ lit ''&hellip;</span></span>''\<rparr>"
  using init
proof (induction "nat (to - int (charIndex s0))" arbitrary: s0 rule: less_induct)
  case less
  show ?case
  proof (cases "int (charIndex s0) < to")
    case False
    then show ?thesis using less.prems by (subst whitespaceLoop.simps) simp
  next
    case True
    show ?thesis
    proof (cases "charBreakIndex input \<le> int (charIndex s0)")
      case brk: True
      show ?thesis using True brk less.prems
        by (subst whitespaceLoop.simps) (auto simp: Let_def)
    next
      case brk: False
      have "Q ((renderWhitespaceChar input s0)\<lparr>charIndex := charIndex s0 + 1\<rparr>)"
        using step[OF less.prems True brk] .
      from less.hyps[OF _ this] True show ?thesis
        using True brk by (subst whitespaceLoop.simps) (simp add: Let_def)
    qed
  qed
qed

lemma partsLoop_Continue_step:
  "k < length (parts input) \<Longrightarrow> renderPart js input k s = Continue s'
   \<Longrightarrow> partsLoop js input k s = partsLoop js input (k + 1) s'"
  by (subst partsLoop.simps) simp

lemma partsLoop_Return_step:
  "k < length (parts input) \<Longrightarrow> renderPart js input k s = Return r
   \<Longrightarrow> partsLoop js input k s = Return r"
  by (subst partsLoop.simps) simp

lemma partsLoop_done:
  "\<not> k < length (parts input) \<Longrightarrow> partsLoop js input k s = Continue s"
  by (subst partsLoop.simps) simp

lemma partsLoop_rule:
  assumes init: "Q k0 s0"
    and step: "\<And>k s s'. Q k s \<Longrightarrow> k < length (parts input) \<Longrightarrow> renderPart js input k s = Continue s'
       \<Longrightarrow> Q (k + 1) s'"
  shows "case partsLoop js input k0 s0 of
           Continue s' \<Rightarrow> \<exists>k. Q k s' \<and> \<not> k < length (parts input) \<and> k0 \<le> k
         | Return r \<Rightarrow> \<exists>k s. Q k s \<and> k < length (parts input) \<and> k0 \<le> k \<and> renderPart js input k s = Return r"
  using init
proof (induction "length (parts input) - k0" arbitrary: k0 s0 rule: less_induct)
  case less
  show ?case
  proof (cases "k0 < length (parts input)")
    case False
    have "Q k0 s0 \<and> \<not> k0 < length (parts input) \<and> k0 \<le> k0"
      using False less.prems by simp
    then show ?thesis unfolding partsLoop_done[where js = js, OF False] by (simp only: loop_exit.case) blast
  next
    case True
    show ?thesis
    proof (cases "renderPart js input k0 s0")
      case (Return r)
      have "Q k0 s0 \<and> k0 < length (parts input) \<and> k0 \<le> k0 \<and> renderPart js input k0 s0 = Return r"
        using True less.prems Return by simp
      then show ?thesis unfolding partsLoop_Return_step[where js = js, OF True Return]
        by (simp only: loop_exit.case) blast
    next
      case (Continue s')
      have q: "Q (k0 + 1) s'" using step[OF less.prems True Continue] .
      have m: "length (parts input) - (k0 + 1) < length (parts input) - k0" using True by simp
      have ih: "case partsLoop js input (k0 + 1) s' of
           Continue s' \<Rightarrow> \<exists>k. Q k s' \<and> \<not> k < length (parts input) \<and> k0 + 1 \<le> k
         | Return r \<Rightarrow> \<exists>k s. Q k s \<and> k < length (parts input) \<and> k0 + 1 \<le> k \<and> renderPart js input k s = Return r"
        using less.hyps[OF m q] .
      show ?thesis unfolding partsLoop_Continue_step[where js = js, OF True Continue]
      proof (cases "partsLoop js input (k0 + 1) s'")
        case (Return r)
        with ih obtain k s where "Q k s" "k < length (parts input)" "k0 + 1 \<le> k"
          "renderPart js input k s = Return r" by auto
        then have "Q k s \<and> k < length (parts input) \<and> k0 \<le> k \<and> renderPart js input k s = Return r"
          by simp
        then show "case partsLoop js input (k0 + 1) s' of
           Continue s' \<Rightarrow> \<exists>k. Q k s' \<and> \<not> k < length (parts input) \<and> k0 \<le> k
         | Return r \<Rightarrow> \<exists>k s. Q k s \<and> k < length (parts input) \<and> k0 \<le> k \<and> renderPart js input k s = Return r"
          unfolding Return by (simp only: loop_exit.case) blast
      next
        case (Continue s'')
        with ih obtain k where "Q k s''" "\<not> k < length (parts input)" "k0 + 1 \<le> k" by auto
        then have "Q k s'' \<and> \<not> k < length (parts input) \<and> k0 \<le> k" by simp
        then show "case partsLoop js input (k0 + 1) s' of
           Continue s' \<Rightarrow> \<exists>k. Q k s' \<and> \<not> k < length (parts input) \<and> k0 \<le> k
         | Return r \<Rightarrow> \<exists>k s. Q k s \<and> k < length (parts input) \<and> k0 \<le> k \<and> renderPart js input k s = Return r"
          unfolding Continue by (simp only: loop_exit.case) blast
      qed
    qed
  qed
qed

lemma array_set_append [simp]: "array_set a (length a) v = a @ [v]"
  by (simp add: array_set_def)

lemma array_set_last [simp]: "array_set (a @ [w]) (length a) v = a @ [v]"
  by (simp add: array_set_def)

lemma arr_renderPlainChar:
  "charOffsetInPartArr (renderPlainChar input s)
     = array_set (charOffsetInPartArr s) (charIndex s) (charOffsetInPart' s)"
  by (simp add: renderPlainChar_def Let_def)

lemma arr_renderWhitespaceChar:
  "charOffsetInPartArr (renderWhitespaceChar input s)
     = array_set (charOffsetInPartArr s) (charIndex s) (charOffsetInPart' s)"
  by (simp add: renderWhitespaceChar_def Let_def split: prod.splits)

section \<open>The length of the offset table\<close>

declare decimalDigits.simps [simp del]
declare insertSpaces.simps [simp del]
declare insertCountedSpaces.simps [simp del]
declare plainLoop.simps [simp del]
declare whitespaceLoop.simps [simp del]
declare partsLoop.simps [simp del]

lemma array_set_at_length [simp]: "length a = i \<Longrightarrow> array_set a i v = a @ [v]"
  by (simp add: array_set_def)

lemma array_set_at_last [simp]: "length a = i \<Longrightarrow> array_set (a @ [w]) i v = a @ [v]"
  by (auto simp: array_set_def)

lemma toCharIndex_le: "toCharIndex input k \<le> int (lineTextLength input)"
  by (simp add: toCharIndex_def)

lemma toCharIndex_last:
  "k + 1 = length (parts input) \<Longrightarrow> toCharIndex input k = int (lineTextLength input)"
  by (simp add: toCharIndex_def)

lemma tableInv_updates [simp]:
  "tableInv input (s\<lparr>out := x\<rparr>) = tableInv input s"
  "tableInv input (s\<lparr>charOffsetInPart' := v\<rparr>) = tableInv input s"
  "tableInv input (s\<lparr>partContentCnt := c\<rparr>) = tableInv input s"
  "tableInv input (s\<lparr>partContent := y\<rparr>) = tableInv input s"
  by (simp_all add: tableInv_def)

lemma tableInv_initial: "tableInv input initialLocals"
  by (simp add: tableInv_def initialLocals_def)

lemma tableInv_plain_step:
  assumes "tableInv input s" "int (charIndex s) < to" "to \<le> int (lineTextLength input)"
    "\<not> charBreakIndex input \<le> int (charIndex s)"
  shows "tableInv input ((renderPlainChar input s)\<lparr>charIndex := charIndex s + 1\<rparr>)"
  using assms by (auto simp: tableInv_def arr_renderPlainChar)

lemma tableInv_whitespace_step:
  assumes "tableInv input s" "int (charIndex s) < to" "to \<le> int (lineTextLength input)"
    "\<not> charBreakIndex input \<le> int (charIndex s)"
  shows "tableInv input ((renderWhitespaceChar input s)\<lparr>charIndex := charIndex s + 1\<rparr>)"
  using assms by (auto simp: tableInv_def arr_renderWhitespaceChar)

lemma tableInv_break_index:
  assumes "tableInv input s" "charBreakIndex input \<le> int (charIndex s)"
  shows "charIndex s = nat (charBreakIndex input)"
  using assms unfolding tableInv_def by linarith

lemma plainLoop_tableInv:
  assumes inv: "tableInv input s0" and to: "to \<le> int (lineTextLength input)"
  shows "case plainLoop input k to s0 of
           Continue s' \<Rightarrow> tableInv input s' \<and> \<not> int (charIndex s') < to
         | Return r \<Rightarrow> truncatedResult input k r"
proof -
  note rule = plainLoop_rule[where Q = "tableInv input" and input = input and to = to and k = k,
      OF inv tableInv_plain_step[OF _ _ to]]
  show ?thesis
  proof (cases "plainLoop input k to s0")
    case (Continue s')
    then show ?thesis using rule by simp
  next
    case (Return r)
    with rule obtain s where s: "tableInv input s" "int (charIndex s) < to"
      "charBreakIndex input \<le> int (charIndex s)"
      and r: "r = \<lparr>charOffsetInPart = array_set (charOffsetInPartArr (renderPlainChar input s))
                        (charIndex s) (charOffsetInPart' (renderPlainChar input s)),
                      lastRenderedPartIndex = int k,
                      output' = out (renderPlainChar input s) @ lit ''&hellip;</span></span>''\<rparr>"
      by auto
    have len: "length (charOffsetInPartArr s) = charIndex s" using s(1) by (simp add: tableInv_def)
    have "charIndex s = nat (charBreakIndex input)" using tableInv_break_index s by blast
    moreover have "array_set (charOffsetInPartArr (renderPlainChar input s))
                        (charIndex s) (charOffsetInPart' (renderPlainChar input s))
        = charOffsetInPartArr s @ [charOffsetInPart' (renderPlainChar input s)]"
      unfolding arr_renderPlainChar using len by simp
    ultimately have "truncatedResult input k r"
      using s to len unfolding truncatedResult_def r by (simp add: suffix_def)
    then show ?thesis using Return by simp
  qed
qed

lemma whitespaceLoop_tableInv:
  assumes inv: "tableInv input s0" and to: "to \<le> int (lineTextLength input)"
  shows "case whitespaceLoop js input part k to s0 of
           Continue s' \<Rightarrow> tableInv input s' \<and> \<not> int (charIndex s') < to
         | Return r \<Rightarrow> truncatedResult input k r"
proof -
  note rule = whitespaceLoop_rule[where js = js, where Q = "tableInv input" and input = input and to = to
      and k = k and part = part, OF inv tableInv_whitespace_step[OF _ _ to]]
  show ?thesis
  proof (cases "whitespaceLoop js input part k to s0")
    case (Continue s')
    then show ?thesis using rule by simp
  next
    case (Return r)
    with rule obtain s where s: "tableInv input s" "int (charIndex s) < to"
      "charBreakIndex input \<le> int (charIndex s)"
      and r: "r = \<lparr>charOffsetInPart = array_set (charOffsetInPartArr (renderWhitespaceChar input s))
                        (charIndex s) (charOffsetInPart' (renderWhitespaceChar input s)),
                      lastRenderedPartIndex = int k,
                      output' = out (renderWhitespaceChar input s)
                        @ whitespaceSpanOpen js input part (renderWhitespaceChar input s)
                        @ partContent (renderWhitespaceChar input s)
                        @ lit ''&hellip;</span></span>''\<rparr>"
      by auto
    have len: "length (charOffsetInPartArr s) = charIndex s" using s(1) by (simp add: tableInv_def)
    have "charIndex s = nat (charBreakIndex input)" using tableInv_break_index s by blast
    moreover have "array_set (charOffsetInPartArr (renderWhitespaceChar input s))
                        (charIndex s) (charOffsetInPart' (renderWhitespaceChar input s))
        = charOffsetInPartArr s @ [charOffsetInPart' (renderWhitespaceChar input s)]"
      unfolding arr_renderWhitespaceChar using len by simp
    moreover have "suffix (lit ''&hellip;</span></span>'') (output' r)"
      unfolding r suffix_def by (simp del: append_assoc add: append_assoc[symmetric])
    ultimately have "truncatedResult input k r"
      using s to len unfolding truncatedResult_def r by simp
    then show ?thesis using Return by simp
  qed
qed

lemma renderPart_whitespace:
  "parsRendersWhitespace input (parts input ! k) \<Longrightarrow>
   renderPart js input k s0 =
     (case whitespaceLoop js input (parts input ! k) k (toCharIndex input k)
             (s0\<lparr>charOffsetInPart' := Num 0, partContentCnt := 0, partContent := []\<rparr>) of
        Return r \<Rightarrow> Return r
      | Continue s' \<Rightarrow>
          Continue (s'\<lparr>out := out s' @ whitespaceSpanOpen js input (parts input ! k) s'
                           @ partContent s' @ lit ''</span>''\<rparr>))"
  by (simp add: renderPart_def Let_def)

lemma renderPart_plain:
  \<open>\<not> parsRendersWhitespace input (parts input ! k) \<Longrightarrow>
   renderPart js input k s0 =
     (case plainLoop input k (toCharIndex input k)
             (s0\<lparr>charOffsetInPart' := Num 0,
                 out := out s0 @ lit ''<span class="token '' @ type (parts input ! k) @ lit ''">''\<rparr>) of
        Return r \<Rightarrow> Return r
      | Continue s' \<Rightarrow> Continue (s'\<lparr>out := out s' @ lit ''</span>''\<rparr>))\<close>
  by (simp add: renderPart_def Let_def)

lemma renderPart_tableInv:
  assumes inv: "tableInv input s0"
  shows "case renderPart js input k s0 of
           Continue s' \<Rightarrow> tableInv input s' \<and> \<not> int (charIndex s') < toCharIndex input k
         | Return r \<Rightarrow> truncatedResult input k r"
proof (cases "parsRendersWhitespace input (parts input ! k)")
  case True
  let ?s = "s0\<lparr>charOffsetInPart' := Num 0, partContentCnt := 0, partContent := []\<rparr>"
  have "tableInv input ?s"
    using inv by simp
  note loop = whitespaceLoop_tableInv[where js = js, OF this toCharIndex_le[of input k], where part = "parts input ! k" and k = k]
  show ?thesis
  proof (cases "whitespaceLoop js input (parts input ! k) k (toCharIndex input k) ?s")
    case (Return r)
    then show ?thesis using loop by (simp add: renderPart_whitespace[where js = js, OF True])
  next
    case (Continue s')
    then show ?thesis using loop by (simp add: renderPart_whitespace[where js = js, OF True])
  qed
next
  case False
  let ?s = \<open>s0\<lparr>charOffsetInPart' := Num 0,
     out := out s0 @ lit ''<span class="token '' @ type (parts input ! k) @ lit ''">''\<rparr>\<close>
  have "tableInv input ?s"
    using inv by simp
  note loop = plainLoop_tableInv[OF this toCharIndex_le[of input k], where k = k]
  show ?thesis
  proof (cases "plainLoop input k (toCharIndex input k) ?s")
    case (Return r)
    then show ?thesis using loop by (simp add: renderPart_plain[where js = js, OF False])
  next
    case (Continue s')
    then show ?thesis using loop by (simp add: renderPart_plain[where js = js, OF False])
  qed
qed

lemma partsLoop_tableInv:
  assumes nonempty: "parts input \<noteq> []" "lineContent input \<noteq> []"
  shows "case partsLoop js input 0 initialLocals of
           Continue s' \<Rightarrow> length (charOffsetInPartArr s') = lineTextLength input
              \<and> int (lineTextLength input) \<le> charBreakIndex input
         | Return r \<Rightarrow> \<exists>k<length (parts input). truncatedResult input k r"
proof -
  let ?Q = "\<lambda>k s. tableInv input s \<and> k \<le> length (parts input)
      \<and> (0 < k \<longrightarrow> \<not> int (charIndex s) < toCharIndex input (k - 1))"
  have rule: "case partsLoop js input 0 initialLocals of
           Continue s' \<Rightarrow> \<exists>k. ?Q k s' \<and> \<not> k < length (parts input) \<and> 0 \<le> k
         | Return r \<Rightarrow> \<exists>k s. ?Q k s \<and> k < length (parts input) \<and> 0 \<le> k
              \<and> renderPart js input k s = Return r"
  proof (rule partsLoop_rule[where js = js, where Q = ?Q and ?k0.0 = 0 and ?s0.0 = initialLocals and input = input])
    show "?Q 0 initialLocals" by (simp add: tableInv_initial)
  next
    fix k s s'
    assume "?Q k s" "k < length (parts input)" "renderPart js input k s = Continue s'"
    then show "?Q (k + 1) s'"
      using renderPart_tableInv[where input = input and ?s0.0 = s and k = k and js = js] by simp
  qed
  show ?thesis
  proof (cases "partsLoop js input 0 initialLocals")
    case (Return r)
    with rule obtain k s where "tableInv input s" "k < length (parts input)"
      "renderPart js input k s = Return r" by auto
    then have "k < length (parts input) \<and> truncatedResult input k r"
      using renderPart_tableInv[where input = input and ?s0.0 = s and k = k and js = js] by simp
    then show ?thesis using Return by auto
  next
    case (Continue s')
    with rule obtain k where k: "tableInv input s'" "k \<le> length (parts input)"
      "0 < k \<longrightarrow> \<not> int (charIndex s') < toCharIndex input (k - 1)" "\<not> k < length (parts input)"
      by auto
    have keq: "k = length (parts input)" using k by simp
    have kpos: "0 < k" using keq nonempty by simp
    have "toCharIndex input (k - 1) = int (lineTextLength input)"
      using toCharIndex_last[of "k - 1" input] keq kpos by simp
    then have ge: "lineTextLength input \<le> charIndex s'" using k(3) kpos by simp
    have npos: "0 < lineTextLength input" using nonempty by (simp add: lineTextLength_def)
    have "length (charOffsetInPartArr s') = lineTextLength input
        \<and> int (lineTextLength input) \<le> charBreakIndex input"
      using k(1) ge npos unfolding tableInv_def by linarith
    then show ?thesis using Continue by simp
  qed
qed

lemma renderLineActual_truncated:
  assumes "parts input \<noteq> []" "lineContent input \<noteq> []"
    and "charBreakIndex input < int (lineTextLength input)"
  shows "\<exists>k<length (parts input). truncatedResult input k (renderLineActual js input)"
proof (cases "partsLoop js input 0 initialLocals")
  case (Return r)
  then show ?thesis using partsLoop_tableInv[where js = js, OF assms(1,2)] by (simp add: renderLineActual_def)
next
  case (Continue s')
  then show ?thesis using partsLoop_tableInv[where js = js, OF assms(1,2)] assms(3) by simp
qed

lemma renderLineActual_untruncated:
  assumes "parts input \<noteq> []" "lineContent input \<noteq> []"
    and "int (lineTextLength input) \<le> charBreakIndex input"
  shows "length (charOffsetInPart (renderLineActual js input)) = lineTextLength input + 1
     \<and> lastRenderedPartIndex (renderLineActual js input) = int (length (parts input)) - 1
     \<and> suffix (lit ''</span>'') (output' (renderLineActual js input))"
proof (cases "partsLoop js input 0 initialLocals")
  case (Return r)
  then show ?thesis using partsLoop_tableInv[where js = js, OF assms(1,2)] assms(3)
    by (auto simp: truncatedResult_def)
next
  case (Continue s')
  then show ?thesis using partsLoop_tableInv[where js = js, OF assms(1,2)]
    by (simp add: renderLineActual_def suffix_def)
qed

lemma renderLine_nonempty:
  "lineContent input \<noteq> [] \<Longrightarrow> parts input \<noteq> [] \<Longrightarrow>
   renderLine js input = Inr (renderLineActual js input)"
  by (simp add: renderLine_def lineTextLength_def)

section \<open>Truncation\<close>

text \<open>
  Claim C10. When the truncation column equals the length of a non-empty line, the break
  index is the last index: every character is rendered, the ellipsis is appended all the
  same, and the offset table has exactly one entry per character, without the entry past
  the end that the same line gets when truncation is disabled.
\<close>

theorem truncation_column_equal_to_length:
  assumes "lineContent input \<noteq> []"
    and "parts input \<noteq> []"
    and "stopRenderingLineAfter input = int (length (lineContent input))"
  shows "\<exists>r r'. renderLine js input = Inr r
     \<and> length (charOffsetInPart r) = length (lineContent input)
     \<and> suffix (lit ''&hellip;</span></span>'') (output' r)
     \<and> renderLine js (input\<lparr>stopRenderingLineAfter := - 1\<rparr>) = Inr r'
     \<and> length (charOffsetInPart r') = length (lineContent input) + 1"
proof -
  have b: "charBreakIndex input = int (length (lineContent input)) - 1"
    using assms(1,3) by (simp add: charBreakIndex_def)
  then have "charBreakIndex input < int (lineTextLength input)"
    by (simp add: lineTextLength_def)
  from renderLineActual_truncated[where js = js, OF assms(2,1) this]
  obtain k where "truncatedResult input k (renderLineActual js input)" by blast
  moreover have "Suc (nat (int (length (lineContent input)) - 1)) = length (lineContent input)"
    using assms(1) by (cases "lineContent input") simp_all
  ultimately have r: "length (charOffsetInPart (renderLineActual js input)) = length (lineContent input)
      \<and> suffix (lit ''&hellip;</span></span>'') (output' (renderLineActual js input))"
    using b by (simp add: truncatedResult_def)
  let ?input' = "input\<lparr>stopRenderingLineAfter := - 1\<rparr>"
  have "int (lineTextLength ?input') \<le> charBreakIndex ?input'"
    by (simp add: charBreakIndex_def lineTextLength_def)
  from renderLineActual_untruncated[where js = js, OF _ _ this] assms(1,2)
  have r': "length (charOffsetInPart (renderLineActual js ?input')) = length (lineContent input) + 1"
    by (simp add: lineTextLength_def)
  show ?thesis
    using r r' renderLine_nonempty[where js = js, OF assms(1,2)] renderLine_nonempty[where input = ?input' and js = js] assms(1,2)
    by simp
qed

theorem truncation_column_equal_to_length_witness:
  "\<exists>r r'. renderLine wholeNumbers \<lparr>lineContent = lit ''abcd'', tabSize = 4, spaceWidth = (7::int),
        stopRenderingLineAfter = 4, renderWhitespace = RW_none, renderHardSpace = False,
        renderControlCharacters = False,
        parts = [\<lparr>startIndex = 0, type = lit ''plain''\<rparr>]\<rparr> = Inr r
     \<and> length (charOffsetInPart r) = 4
     \<and> suffix (lit ''&hellip;</span></span>'') (output' r)
     \<and> renderLine wholeNumbers \<lparr>lineContent = lit ''abcd'', tabSize = 4, spaceWidth = (7::int),
        stopRenderingLineAfter = - 1, renderWhitespace = RW_none, renderHardSpace = False,
        renderControlCharacters = False,
        parts = [\<lparr>startIndex = 0, type = lit ''plain''\<rparr>]\<rparr> = Inr r'
     \<and> length (charOffsetInPart r') = 5"
  using truncation_column_equal_to_length
    [where js = wholeNumbers and input = "\<lparr>lineContent = lit ''abcd'', tabSize = 4, spaceWidth = (7::int),
        stopRenderingLineAfter = 4, renderWhitespace = RW_none, renderHardSpace = False,
        renderControlCharacters = False,
        parts = [\<lparr>startIndex = 0, type = lit ''plain''\<rparr>]\<rparr>"]
  by (auto simp: lit_def)

section \<open>Evaluating the renderer on a given line\<close>

lemma renderPlainChar_markup:
  assumes "charCodeAt (lineContent input) (charIndex s) = Some c" "c \<noteq> CharCode_Tab"
  shows "out (renderPlainChar input s) = out s @ plainCharMarkup input (charIndex s) (Some c)"
  using assms by (simp add: renderPlainChar_def Let_def)

lemmas renderLine_unfold =
  renderLine_def lineTextLength_def renderLineActual_def partsLoop.simps
  renderPart_def toCharIndex_def initialLocals_def charBreakIndex_def Let_def

lemmas plain_unfold =
  plainLoop.simps renderPlainChar_def plainCharMarkup_def charCodeAt_def charAt_def
  CharCode_defs isControlCharacter_def controlCharacterToPrintable_def
  controlCharacterSequenceConversionStart_def array_set_def

section \<open>Escaping in a plain part\<close>

text \<open>
  Claim C6. In a part rendered by the plain branch the characters \<^verbatim>\<open><\<close>, \<^verbatim>\<open>&\<close> and \<^verbatim>\<open>>\<close> are
  emitted as their entities, and a code unit above the space that has no case of its own
  is emitted as it is. The line \<^verbatim>\<open><a&b>\<close> with one plain part and no truncation renders as
  \<^verbatim>\<open>&lt;a&amp;b&gt;\<close> inside the two spans, with the six offsets 0 to 5: one per character
  and the one past the end.
\<close>

theorem plain_part_escapes_markup:
  \<open>(charCodeAt (lineContent input) (charIndex s) = Some c \<longrightarrow>
      (c = CharCode_LessThan \<longrightarrow> out (renderPlainChar input s) = out s @ lit ''&lt;'')
    \<and> (c = CharCode_Ampersand \<longrightarrow> out (renderPlainChar input s) = out s @ lit ''&amp;'')
    \<and> (c = CharCode_GreaterThan \<longrightarrow> out (renderPlainChar input s) = out s @ lit ''&gt;'')
    \<and> (CharCode_Space < c \<and> c \<noteq> CharCode_LessThan \<and> c \<noteq> CharCode_Ampersand
         \<and> c \<noteq> CharCode_GreaterThan \<and> c \<noteq> CharCode_HardSpace
         \<and> c \<noteq> CharCode_LINE_SEPARATOR_2028 \<and> c \<noteq> CharCode_UTF8_BOM
       \<longrightarrow> out (renderPlainChar input s) = out s @ [c]))
   \<and> (parts input = [p] \<and> \<not> parsRendersWhitespace input p
      \<and> lineContent input = lit ''<a&b>'' \<and> stopRenderingLineAfter input = - 1 \<longrightarrow>
      renderLine js input =
        Inr \<lparr>charOffsetInPart = [Num 0, Num 1, Num 2, Num 3, Num 4, Num 5],
             lastRenderedPartIndex = 0,
             output' = lit ''<span><span class="token '' @ type p
               @ lit ''">&lt;a&amp;b&gt;</span></span>''\<rparr>)\<close>
proof -
  have chars: "(c = CharCode_LessThan \<longrightarrow> out (renderPlainChar input s) = out s @ lit ''&lt;'')
    \<and> (c = CharCode_Ampersand \<longrightarrow> out (renderPlainChar input s) = out s @ lit ''&amp;'')
    \<and> (c = CharCode_GreaterThan \<longrightarrow> out (renderPlainChar input s) = out s @ lit ''&gt;'')
    \<and> (CharCode_Space < c \<and> c \<noteq> CharCode_LessThan \<and> c \<noteq> CharCode_Ampersand
         \<and> c \<noteq> CharCode_GreaterThan \<and> c \<noteq> CharCode_HardSpace
         \<and> c \<noteq> CharCode_LINE_SEPARATOR_2028 \<and> c \<noteq> CharCode_UTF8_BOM
       \<longrightarrow> out (renderPlainChar input s) = out s @ [c])"
    if c: "charCodeAt (lineContent input) (charIndex s) = Some c"
  proof -
    have at: "charAt (lineContent input) (charIndex s) = [c]"
      using c by (auto simp: charCodeAt_def charAt_def split: if_splits)
    show ?thesis
      using c at
      by (auto simp: renderPlainChar_def plainCharMarkup_def Let_def CharCode_defs
          isControlCharacter_def)
  qed
  have example: \<open>renderLine js input =
        Inr \<lparr>charOffsetInPart = [Num 0, Num 1, Num 2, Num 3, Num 4, Num 5],
             lastRenderedPartIndex = 0,
             output' = lit ''<span><span class="token '' @ type p
               @ lit ''">&lt;a&amp;b&gt;</span></span>''\<rparr>\<close>
    if "parts input = [p]" "\<not> parsRendersWhitespace input p"
      "lineContent input = lit ''<a&b>''" "stopRenderingLineAfter input = - 1"
    using that by (simp add: renderLine_unfold plain_unfold lit_def)
  show ?thesis using chars example by blast
qed

theorem plain_part_escapes_markup_witness:
  \<open>out (renderPlainChar
       \<lparr>lineContent = lit ''<a&b>'', tabSize = 4, spaceWidth = (7::int),
        stopRenderingLineAfter = - 1, renderWhitespace = RW_all, renderHardSpace = False,
        renderControlCharacters = False,
        parts = [\<lparr>startIndex = 0, type = lit ''plain''\<rparr>]\<rparr> initialLocals)
     = lit ''<span>&lt;''
   \<and> renderLine wholeNumbers
       \<lparr>lineContent = lit ''<a&b>'', tabSize = 4, spaceWidth = (7::int),
        stopRenderingLineAfter = - 1, renderWhitespace = RW_all, renderHardSpace = False,
        renderControlCharacters = False,
        parts = [\<lparr>startIndex = 0, type = lit ''plain''\<rparr>]\<rparr>
     = Inr \<lparr>charOffsetInPart = [Num 0, Num 1, Num 2, Num 3, Num 4, Num 5],
            lastRenderedPartIndex = 0,
            output' = lit ''<span><span class="token plain">&lt;a&amp;b&gt;</span></span>''\<rparr>\<close>
  using plain_part_escapes_markup
    [where js = wholeNumbers and input = "\<lparr>lineContent = lit ''<a&b>'', tabSize = 4, spaceWidth = (7::int),
        stopRenderingLineAfter = - 1, renderWhitespace = RW_all, renderHardSpace = False,
        renderControlCharacters = False,
        parts = [\<lparr>startIndex = 0, type = lit ''plain''\<rparr>]\<rparr>" and s = initialLocals and c = 60
        and p = "\<lparr>startIndex = 0, type = lit ''plain''\<rparr>"]
  by (simp add: parsRendersWhitespace_def isWhitespace_def indexOf_def lit_def charCodeAt_def
      initialLocals_def CharCode_defs)

section \<open>Control characters\<close>

text \<open>
  Claim C8. A code unit below 32 other than NUL, tab and carriage return is emitted by the
  plain branch as the control picture 9216 positions above it when
  \<open>renderControlCharacters\<close> is set, and as it is otherwise. A line made of one such
  character shows the glyph between the opening and the closing tags.
\<close>

theorem control_character_to_picture:
  \<open>(charCodeAt (lineContent input) (charIndex s) = Some c \<and> c < 32
      \<and> c \<noteq> CharCode_Tab \<and> c \<noteq> CharCode_Null \<and> c \<noteq> CharCode_CarriageReturn \<longrightarrow>
      out (renderPlainChar input s)
        = out s @ [if renderControlCharacters input then c + 9216 else c])
   \<and> (parts input = [p] \<and> \<not> parsRendersWhitespace input p \<and> lineContent input = [c]
      \<and> c < 32 \<and> c \<noteq> CharCode_Tab \<and> c \<noteq> CharCode_Null \<and> c \<noteq> CharCode_CarriageReturn
      \<and> stopRenderingLineAfter input = - 1 \<longrightarrow>
      renderLine js input =
        Inr \<lparr>charOffsetInPart = [Num 0, Num 1], lastRenderedPartIndex = 0,
             output' = lit ''<span><span class="token '' @ type p @ lit ''">''
               @ [if renderControlCharacters input then c + 9216 else c]
               @ lit ''</span></span>''\<rparr>)\<close>
proof -
  have char: "out (renderPlainChar input s)
        = out s @ [if renderControlCharacters input then c + 9216 else c]"
    if c: "charCodeAt (lineContent input) (charIndex s) = Some c" "c < 32"
      "c \<noteq> CharCode_Tab" "c \<noteq> CharCode_Null" "c \<noteq> CharCode_CarriageReturn"
  proof -
    have at: "charAt (lineContent input) (charIndex s) = [c]"
      using c(1) by (auto simp: charCodeAt_def charAt_def split: if_splits)
    show ?thesis
      using c at
      by (auto simp: renderPlainChar_def plainCharMarkup_def Let_def CharCode_defs
          isControlCharacter_def controlCharacterToPrintable_def
          controlCharacterSequenceConversionStart_def)
  qed
  have line: \<open>renderLine js input =
        Inr \<lparr>charOffsetInPart = [Num 0, Num 1], lastRenderedPartIndex = 0,
             output' = lit ''<span><span class="token '' @ type p @ lit ''">''
               @ [if renderControlCharacters input then c + 9216 else c]
               @ lit ''</span></span>''\<rparr>\<close>
    if "parts input = [p]" "\<not> parsRendersWhitespace input p" "lineContent input = [c]"
      "c < 32" "c \<noteq> CharCode_Tab" "c \<noteq> CharCode_Null" "c \<noteq> CharCode_CarriageReturn"
      "stopRenderingLineAfter input = - 1"
    using that by (simp add: renderLine_unfold plain_unfold lit_def)
  show ?thesis using char line by blast
qed

theorem control_character_to_picture_witness:
  \<open>out (renderPlainChar
       \<lparr>lineContent = [7], tabSize = 4, spaceWidth = (7::int),
        stopRenderingLineAfter = - 1, renderWhitespace = RW_none, renderHardSpace = False,
        renderControlCharacters = True,
        parts = [\<lparr>startIndex = 0, type = lit ''plain''\<rparr>]\<rparr> initialLocals)
     = lit ''<span>'' @ [9223]
   \<and> renderLine wholeNumbers
       \<lparr>lineContent = [7], tabSize = 4, spaceWidth = (7::int),
        stopRenderingLineAfter = - 1, renderWhitespace = RW_none, renderHardSpace = False,
        renderControlCharacters = True,
        parts = [\<lparr>startIndex = 0, type = lit ''plain''\<rparr>]\<rparr>
     = Inr \<lparr>charOffsetInPart = [Num 0, Num 1], lastRenderedPartIndex = 0,
            output' = lit ''<span><span class="token plain">'' @ [9223]
              @ lit ''</span></span>''\<rparr>\<close>
  using control_character_to_picture
    [where js = wholeNumbers and input = "\<lparr>lineContent = [7], tabSize = 4, spaceWidth = (7::int),
        stopRenderingLineAfter = - 1, renderWhitespace = RW_none, renderHardSpace = False,
        renderControlCharacters = True,
        parts = [\<lparr>startIndex = 0, type = lit ''plain''\<rparr>]\<rparr>" and s = initialLocals and c = 7
        and p = "\<lparr>startIndex = 0, type = lit ''plain''\<rparr>"]
  by (simp add: parsRendersWhitespace_def lit_def charCodeAt_def
      initialLocals_def CharCode_defs)

section \<open>The offset table and the visual column\<close>

lemma visualColumn_step:
  assumes "1 \<le> tabSize input"
  shows "visualColumn input i < visualColumn input (Suc i)
     \<and> visualColumn input (Suc i) \<le> visualColumn input i + tabSize input"
proof -
  have "visualColumn input i mod tabSize input < tabSize input"
    "0 \<le> visualColumn input i mod tabSize input"
    using assms by simp_all
  then show ?thesis using assms by simp
qed

lemma visualColumn_ge: "1 \<le> tabSize input \<Longrightarrow> int i \<le> visualColumn input i"
proof (induction i)
  case 0
  show ?case by simp
next
  case (Suc i)
  then show ?case using visualColumn_step[of input i] by linarith
qed

lemma visualColumn_mono:
  assumes "1 \<le> tabSize input" "i \<le> j"
  shows "visualColumn input i \<le> visualColumn input j"
  using assms(2)
proof (induction j)
  case 0
  then show ?case by simp
next
  case (Suc j)
  then show ?case using visualColumn_step[OF assms(1), of j] by (cases "i = Suc j") auto
qed

lemma visualColumn_strict_mono:
  assumes "1 \<le> tabSize input" "i < j"
  shows "visualColumn input i < visualColumn input j"
proof -
  have "visualColumn input (Suc i) \<le> visualColumn input j"
    using visualColumn_mono[OF assms(1), of "Suc i" j] assms(2) by simp
  then show ?thesis using visualColumn_step[OF assms(1), of i] by linarith
qed

lemma insertSpacesCount_visual:
  assumes "1 \<le> tabSize input"
    and "tabsCharDelta s = Num (visualColumn input (charIndex s) - int (charIndex s))"
  shows "insertSpacesCount input s
     = Num (tabSize input - visualColumn input (charIndex s) mod tabSize input)"
proof -
  have "0 \<le> visualColumn input (charIndex s)"
    using visualColumn_ge[OF assms(1), of "charIndex s"] by linarith
  then show ?thesis using assms by (simp add: insertSpacesCount_def sgn_if)
qed

lemma plain_numbers:
  "tabsCharDelta (renderPlainChar input s) =
     (if charCodeAt (lineContent input) (charIndex s) = Some CharCode_Tab
      then num_add (tabsCharDelta s) (num_sub (insertSpacesCount input s) (Num 1))
      else tabsCharDelta s)"
  "charOffsetInPart' (renderPlainChar input s) =
     (if charCodeAt (lineContent input) (charIndex s) = Some CharCode_Tab
      then num_add (num_add (charOffsetInPart' s) (num_sub (insertSpacesCount input s) (Num 1))) (Num 1)
      else num_add (charOffsetInPart' s) (Num 1))"
  by (simp_all add: renderPlainChar_def Let_def insertSpacesCount_def)

lemma whitespace_numbers:
  "tabsCharDelta (renderWhitespaceChar input s) =
     (if charCodeAt (lineContent input) (charIndex s) = Some CharCode_Tab
      then num_add (tabsCharDelta s) (num_sub (insertSpacesCount input s) (Num 1))
      else tabsCharDelta s)"
  "charOffsetInPart' (renderWhitespaceChar input s) =
     (if charCodeAt (lineContent input) (charIndex s) = Some CharCode_Tab
      then num_add (num_add (charOffsetInPart' s) (num_sub (insertSpacesCount input s) (Num 1))) (Num 1)
      else num_add (charOffsetInPart' s) (Num 1))"
  by (simp_all add: renderWhitespaceChar_def Let_def insertSpacesCount_def split: prod.splits)

text \<open>What one rendered character does to the numbers, in either branch.\<close>

lemma offset_step:
  assumes ts: "1 \<le> tabSize input"
    and delta: "tabsCharDelta s = Num (visualColumn input (charIndex s) - int (charIndex s))"
    and offs: "charOffsetInPart' s = Num (visualColumn input (charIndex s) - visualColumn input c0)"
    and body: "s' = renderPlainChar input s \<or> s' = renderWhitespaceChar input s"
  shows "tabsCharDelta s' = Num (visualColumn input (Suc (charIndex s)) - int (Suc (charIndex s)))
     \<and> charOffsetInPart' s' = Num (visualColumn input (Suc (charIndex s)) - visualColumn input c0)"
proof -
  note isc = insertSpacesCount_visual[OF ts delta]
  have "tabsCharDelta s' =
     (if charCodeAt (lineContent input) (charIndex s) = Some CharCode_Tab
      then num_add (tabsCharDelta s) (num_sub (insertSpacesCount input s) (Num 1))
      else tabsCharDelta s)"
    using body plain_numbers(1) whitespace_numbers(1) by metis
  moreover have "charOffsetInPart' s' =
     (if charCodeAt (lineContent input) (charIndex s) = Some CharCode_Tab
      then num_add (num_add (charOffsetInPart' s) (num_sub (insertSpacesCount input s) (Num 1))) (Num 1)
      else num_add (charOffsetInPart' s) (Num 1))"
    using body plain_numbers(2) whitespace_numbers(2) by metis
  ultimately show ?thesis
    by (simp add: isc delta offs)
qed

lemma offsetInv_step:
  assumes ts: "1 \<le> tabSize input"
    and inv: "offsetInv input c0 A0 s"
    and lt: "int (charIndex s) < to" "to \<le> int (lineTextLength input)"
    and nobreak: "\<not> charBreakIndex input \<le> int (charIndex s)"
    and body: "s' = renderPlainChar input s \<or> s' = renderWhitespaceChar input s"
  shows "offsetInv input c0 A0 (s'\<lparr>charIndex := charIndex s + 1\<rparr>)"
proof -
  have tinv: "tableInv input s" and c0: "c0 \<le> charIndex s" "length A0 = c0"
    and arr: "charOffsetInPartArr s
         = A0 @ map (\<lambda>i. Num (visualColumn input i - visualColumn input c0)) [c0..<charIndex s]"
    and offs: "charOffsetInPart' s = Num (visualColumn input (charIndex s) - visualColumn input c0)"
    and delta: "tabsCharDelta s = Num (visualColumn input (charIndex s) - int (charIndex s))"
    using inv by (simp_all add: offsetInv_def)
  have len: "length (charOffsetInPartArr s) = charIndex s" using tinv by (simp add: tableInv_def)
  have arr': "charOffsetInPartArr s' = charOffsetInPartArr s @ [charOffsetInPart' s]"
    using body len by (auto simp: arr_renderPlainChar arr_renderWhitespaceChar)
  have t': "tableInv input (s'\<lparr>charIndex := charIndex s + 1\<rparr>)"
    using body tableInv_plain_step[OF tinv lt nobreak] tableInv_whitespace_step[OF tinv lt nobreak]
    by auto
  have "charOffsetInPartArr s'
      = A0 @ map (\<lambda>i. Num (visualColumn input i - visualColumn input c0)) [c0..<Suc (charIndex s)]"
    using arr' arr offs c0 by simp
  then show ?thesis
    using t' c0 offset_step[OF ts delta offs body]
    by (simp add: offsetInv_def)
qed

lemma loopInv_step:
  assumes ts: "1 \<le> tabSize input"
    and inv: "loopInv input to c0 A0 s"
    and lt: "int (charIndex s) < to" and to: "to \<le> int (lineTextLength input)"
    and nobreak: "\<not> charBreakIndex input \<le> int (charIndex s)"
    and body: "s' = renderPlainChar input s \<or> s' = renderWhitespaceChar input s"
  shows "loopInv input to c0 A0 (s'\<lparr>charIndex := charIndex s + 1\<rparr>)"
  using offsetInv_step[OF ts _ lt to nobreak body, of c0 A0] inv lt
  by (simp add: loopInv_def)

lemma loopInv_return:
  assumes ts: "1 \<le> tabSize input"
    and inv: "loopInv input to c0 A0 s"
    and lt: "int (charIndex s) < to"
    and break: "charBreakIndex input \<le> int (charIndex s)"
    and body: "s' = renderPlainChar input s \<or> s' = renderWhitespaceChar input s"
    and r: "charOffsetInPart r = array_set (charOffsetInPartArr s') (charIndex s) (charOffsetInPart' s')"
  shows "truncatedTable input c0 A0 to r"
proof -
  have oinv: "offsetInv input c0 A0 s" using inv by (simp add: loopInv_def)
  then have tinv: "tableInv input s" and c0: "c0 \<le> charIndex s"
    and arr: "charOffsetInPartArr s
         = A0 @ map (\<lambda>i. Num (visualColumn input i - visualColumn input c0)) [c0..<charIndex s]"
    and offs: "charOffsetInPart' s = Num (visualColumn input (charIndex s) - visualColumn input c0)"
    and delta: "tabsCharDelta s = Num (visualColumn input (charIndex s) - int (charIndex s))"
    by (simp_all add: offsetInv_def)
  have len: "length (charOffsetInPartArr s) = charIndex s" using tinv by (simp add: tableInv_def)
  have at: "charIndex s = nat (charBreakIndex input)" using tableInv_break_index[OF tinv break] .
  have arr': "charOffsetInPartArr s' = charOffsetInPartArr s @ [charOffsetInPart' s]"
    using body len by (auto simp: arr_renderPlainChar arr_renderWhitespaceChar)
  have "charOffsetInPart r = charOffsetInPartArr s @ [charOffsetInPart' s']"
    using r arr' len by simp
  then show ?thesis
    using offset_step[OF ts delta offs body] arr c0 lt at
    by (simp add: truncatedTable_def)
qed

lemma plainLoop_offsets:
  assumes ts: "1 \<le> tabSize input"
    and inv: "offsetInv input c0 A0 s0" "charIndex s0 = c0"
    and to: "to \<le> int (lineTextLength input)"
  shows "case plainLoop input k to s0 of
           Continue s' \<Rightarrow> offsetInv input c0 A0 s' \<and> charIndex s' = max c0 (nat to)
         | Return r \<Rightarrow> truncatedTable input c0 A0 to r"
proof -
  have rule: "case plainLoop input k to s0 of
           Continue s' \<Rightarrow> loopInv input to c0 A0 s' \<and> \<not> int (charIndex s') < to
         | Return r \<Rightarrow> \<exists>s. loopInv input to c0 A0 s \<and> int (charIndex s) < to
              \<and> charBreakIndex input \<le> int (charIndex s)
              \<and> r = \<lparr>charOffsetInPart = array_set (charOffsetInPartArr (renderPlainChar input s))
                        (charIndex s) (charOffsetInPart' (renderPlainChar input s)),
                      lastRenderedPartIndex = int k,
                      output' = out (renderPlainChar input s) @ lit ''&hellip;</span></span>''\<rparr>"
  proof (rule plainLoop_rule[where Q = "loopInv input to c0 A0"])
    show "loopInv input to c0 A0 s0" using inv by (simp add: loopInv_def)
  next
    fix s
    assume "loopInv input to c0 A0 s" "int (charIndex s) < to"
      "\<not> charBreakIndex input \<le> int (charIndex s)"
    then show "loopInv input to c0 A0 ((renderPlainChar input s)\<lparr>charIndex := charIndex s + 1\<rparr>)"
      using loopInv_step[OF ts _ _ to] by blast
  qed
  show ?thesis
  proof (cases "plainLoop input k to s0")
    case (Continue s')
    with rule have l: "loopInv input to c0 A0 s'" and ex: "\<not> int (charIndex s') < to" by simp_all
    have "c0 \<le> charIndex s'" using l by (simp add: loopInv_def offsetInv_def)
    moreover have "charIndex s' = c0 \<or> int (charIndex s') \<le> to" using l by (simp add: loopInv_def)
    ultimately have "charIndex s' = max c0 (nat to)" using ex by linarith
    then show ?thesis using Continue l by (simp add: loopInv_def)
  next
    case (Return r)
    with rule obtain s where s: "loopInv input to c0 A0 s" "int (charIndex s) < to"
      "charBreakIndex input \<le> int (charIndex s)"
      and r: "r = \<lparr>charOffsetInPart = array_set (charOffsetInPartArr (renderPlainChar input s))
                        (charIndex s) (charOffsetInPart' (renderPlainChar input s)),
                      lastRenderedPartIndex = int k,
                      output' = out (renderPlainChar input s) @ lit ''&hellip;</span></span>''\<rparr>"
      by auto
    have "truncatedTable input c0 A0 to r"
      by (rule loopInv_return[OF ts s, where s' = "renderPlainChar input s"]) (simp_all add: r)
    then show ?thesis using Return by simp
  qed
qed

lemma whitespaceLoop_offsets:
  assumes ts: "1 \<le> tabSize input"
    and inv: "offsetInv input c0 A0 s0" "charIndex s0 = c0"
    and to: "to \<le> int (lineTextLength input)"
  shows "case whitespaceLoop js input part k to s0 of
           Continue s' \<Rightarrow> offsetInv input c0 A0 s' \<and> charIndex s' = max c0 (nat to)
         | Return r \<Rightarrow> truncatedTable input c0 A0 to r"
proof -
  have rule: "case whitespaceLoop js input part k to s0 of
           Continue s' \<Rightarrow> loopInv input to c0 A0 s' \<and> \<not> int (charIndex s') < to
         | Return r \<Rightarrow> \<exists>s. loopInv input to c0 A0 s \<and> int (charIndex s) < to
              \<and> charBreakIndex input \<le> int (charIndex s)
              \<and> r = \<lparr>charOffsetInPart = array_set (charOffsetInPartArr (renderWhitespaceChar input s))
                        (charIndex s) (charOffsetInPart' (renderWhitespaceChar input s)),
                      lastRenderedPartIndex = int k,
                      output' = out (renderWhitespaceChar input s)
                        @ whitespaceSpanOpen js input part (renderWhitespaceChar input s)
                        @ partContent (renderWhitespaceChar input s)
                        @ lit ''&hellip;</span></span>''\<rparr>"
  proof (rule whitespaceLoop_rule[where js = js, where Q = "loopInv input to c0 A0"])
    show "loopInv input to c0 A0 s0" using inv by (simp add: loopInv_def)
  next
    fix s
    assume "loopInv input to c0 A0 s" "int (charIndex s) < to"
      "\<not> charBreakIndex input \<le> int (charIndex s)"
    then show "loopInv input to c0 A0 ((renderWhitespaceChar input s)\<lparr>charIndex := charIndex s + 1\<rparr>)"
      using loopInv_step[OF ts _ _ to] by blast
  qed
  show ?thesis
  proof (cases "whitespaceLoop js input part k to s0")
    case (Continue s')
    with rule have l: "loopInv input to c0 A0 s'" and ex: "\<not> int (charIndex s') < to" by simp_all
    have "c0 \<le> charIndex s'" using l by (simp add: loopInv_def offsetInv_def)
    moreover have "charIndex s' = c0 \<or> int (charIndex s') \<le> to" using l by (simp add: loopInv_def)
    ultimately have "charIndex s' = max c0 (nat to)" using ex by linarith
    then show ?thesis using Continue l by (simp add: loopInv_def)
  next
    case (Return r)
    with rule obtain s where s: "loopInv input to c0 A0 s" "int (charIndex s) < to"
      "charBreakIndex input \<le> int (charIndex s)"
      and r: "r = \<lparr>charOffsetInPart = array_set (charOffsetInPartArr (renderWhitespaceChar input s))
                        (charIndex s) (charOffsetInPart' (renderWhitespaceChar input s)),
                      lastRenderedPartIndex = int k,
                      output' = out (renderWhitespaceChar input s)
                        @ whitespaceSpanOpen js input part (renderWhitespaceChar input s)
                        @ partContent (renderWhitespaceChar input s)
                        @ lit ''&hellip;</span></span>''\<rparr>"
      by auto
    have "truncatedTable input c0 A0 to r"
      by (rule loopInv_return[OF ts s, where s' = "renderWhitespaceChar input s"]) (simp_all add: r)
    then show ?thesis using Return by simp
  qed
qed

lemma offsetInv_out [simp]: "offsetInv input c0 A0 (s\<lparr>out := x\<rparr>) = offsetInv input c0 A0 s"
  by (simp add: offsetInv_def)

lemma offsetInv_entry:
  assumes "tableInv input s"
    and "tabsCharDelta s = Num (visualColumn input (charIndex s) - int (charIndex s))"
  shows "offsetInv input (charIndex s) (charOffsetInPartArr s) (s\<lparr>charOffsetInPart' := Num 0\<rparr>)"
    and "offsetInv input (charIndex s) (charOffsetInPartArr s)
           (s\<lparr>charOffsetInPart' := Num 0, partContentCnt := 0, partContent := []\<rparr>)"
    and "offsetInv input (charIndex s) (charOffsetInPartArr s)
           (s\<lparr>charOffsetInPart' := Num 0, out := x\<rparr>)"
  using assms by (simp_all add: offsetInv_def tableInv_def)

lemma renderPart_offsets:
  assumes ts: "1 \<le> tabSize input"
    and tinv: "tableInv input s0"
    and delta: "tabsCharDelta s0 = Num (visualColumn input (charIndex s0) - int (charIndex s0))"
  shows "case renderPart js input k s0 of
           Continue s' \<Rightarrow> offsetInv input (charIndex s0) (charOffsetInPartArr s0) s'
              \<and> charIndex s' = max (charIndex s0) (nat (toCharIndex input k))
         | Return r \<Rightarrow> truncatedTable input (charIndex s0) (charOffsetInPartArr s0)
              (toCharIndex input k) r"
proof (cases "parsRendersWhitespace input (parts input ! k)")
  case True
  let ?s = "s0\<lparr>charOffsetInPart' := Num 0, partContentCnt := 0, partContent := []\<rparr>"
  have "offsetInv input (charIndex s0) (charOffsetInPartArr s0) ?s" "charIndex ?s = charIndex s0"
    using offsetInv_entry(2)[OF tinv delta] by simp_all
  note loop = whitespaceLoop_offsets[where js = js, OF ts this toCharIndex_le[of input k],
      where part = "parts input ! k" and k = k]
  show ?thesis
  proof (cases "whitespaceLoop js input (parts input ! k) k (toCharIndex input k) ?s")
    case (Return r)
    then show ?thesis using loop by (simp add: renderPart_whitespace[where js = js, OF True])
  next
    case (Continue s')
    then show ?thesis using loop by (simp add: renderPart_whitespace[where js = js, OF True])
  qed
next
  case False
  let ?s = \<open>s0\<lparr>charOffsetInPart' := Num 0,
     out := out s0 @ lit ''<span class="token '' @ type (parts input ! k) @ lit ''">''\<rparr>\<close>
  have "offsetInv input (charIndex s0) (charOffsetInPartArr s0) ?s" "charIndex ?s = charIndex s0"
    using offsetInv_entry(3)[OF tinv delta] by simp_all
  note loop = plainLoop_offsets[OF ts this toCharIndex_le[of input k], where k = k]
  show ?thesis
  proof (cases "plainLoop input k (toCharIndex input k) ?s")
    case (Return r)
    then show ?thesis using loop by (simp add: renderPart_plain[where js = js, OF False])
  next
    case (Continue s')
    then show ?thesis using loop by (simp add: renderPart_plain[where js = js, OF False])
  qed
qed

declare partStart.simps [simp del]

lemma partStart_Suc_ge: "partStart input k \<le> partStart input (Suc k)"
  by (simp add: partStart.simps)

lemma partStart_mono: "k \<le> k' \<Longrightarrow> partStart input k \<le> partStart input k'"
proof (induction k')
  case 0
  then show ?case by simp
next
  case (Suc k')
  then show ?case using partStart_Suc_ge[of input k'] by (cases "k = Suc k'") auto
qed

lemma partStart_le: "partStart input k \<le> lineTextLength input"
proof (induction k)
  case 0
  show ?case by (simp add: partStart.simps)
next
  case (Suc k)
  then show ?case using toCharIndex_le[of input k] by (simp add: partStart.simps)
qed

lemma partStart_length:
  assumes "parts input \<noteq> []"
  shows "partStart input (length (parts input)) = lineTextLength input"
proof -
  obtain m where m: "length (parts input) = Suc m" using assms by (cases "parts input") auto
  have "toCharIndex input m = int (lineTextLength input)"
    using toCharIndex_last[of m input] m by simp
  then show ?thesis using partStart_le[of input m] m by (simp add: partStart.simps)
qed

lemma nth_append_interval:
  assumes "length A = c0" "c0 \<le> i" "i < c1"
  shows "(A @ map f [c0..<c1] @ B) ! i = f i"
proof -
  have d: "i - c0 < c1 - c0" using assms by linarith
  have "(A @ map f [c0..<c1] @ B) ! i = (map f [c0..<c1] @ B) ! (i - c0)"
    using assms by (simp add: nth_append)
  also have "\<dots> = map f [c0..<c1] ! (i - c0)" using d by (simp add: nth_append)
  also have "\<dots> = f i" using assms d by simp
  finally show ?thesis .
qed

lemma partsDone_append:
  assumes "partsDone input k A" "length A = partStart input k"
  shows "partsDone input k (A @ B)"
  unfolding partsDone_def
proof (intro allI impI)
  fix k' i
  assume k': "k' < k" and i: "partStart input k' \<le> i \<and> i < partStart input (Suc k')"
  have "partStart input (Suc k') \<le> partStart input k" using k' partStart_mono[of "Suc k'" k input] by simp
  then have "i < length A" using i assms(2) by simp
  then have "(A @ B) ! i = A ! i" by (simp add: nth_append)
  then show "(A @ B) ! i = Num (visualColumn input i - visualColumn input (partStart input k'))"
    using assms(1) k' i by (simp add: partsDone_def)
qed

lemma partsDone_Suc:
  assumes pd: "partsDone input k A" and len: "length A = partStart input k"
    and c1: "c1 = partStart input (Suc k)"
  shows "partsDone input (Suc k)
     (A @ map (\<lambda>i. Num (visualColumn input i - visualColumn input (partStart input k)))
            [partStart input k..<c1] @ B)"
  unfolding partsDone_def
proof (intro allI impI)
  fix k' i
  assume k': "k' < Suc k" and i: "partStart input k' \<le> i \<and> i < partStart input (Suc k')"
  let ?T = "A @ map (\<lambda>i. Num (visualColumn input i - visualColumn input (partStart input k)))
            [partStart input k..<c1] @ B"
  show "?T ! i = Num (visualColumn input i - visualColumn input (partStart input k'))"
  proof (cases "k' = k")
    case True
    then show ?thesis using nth_append_interval[OF len, of i c1] i c1 by simp
  next
    case False
    then have "k' < k" using k' by simp
    then show ?thesis using partsDone_append[OF pd len] i by (simp add: partsDone_def)
  qed
qed

lemma partsInv_initial: "partsInv input 0 initialLocals"
  by (simp add: partsInv_def tableInv_initial partsDone_def)
     (simp add: initialLocals_def partStart.simps)

lemma partsInv_step:
  assumes ts: "1 \<le> tabSize input"
    and inv: "partsInv input k s" and k: "k < length (parts input)"
    and part: "renderPart js input k s = Continue s'"
  shows "partsInv input (k + 1) s'"
proof -
  have tinv: "tableInv input s" and c: "charIndex s = partStart input k"
    and delta: "tabsCharDelta s = Num (visualColumn input (charIndex s) - int (charIndex s))"
    and pd: "partsDone input k (charOffsetInPartArr s)"
    using inv by (simp_all add: partsInv_def)
  have len: "length (charOffsetInPartArr s) = partStart input k"
    using tinv c by (simp add: tableInv_def)
  from renderPart_offsets[where js = js, OF ts tinv delta, of k] part
  have oinv: "offsetInv input (charIndex s) (charOffsetInPartArr s) s'"
    and c': "charIndex s' = max (charIndex s) (nat (toCharIndex input k))"
    by simp_all
  have c1: "charIndex s' = partStart input (Suc k)" using c' c by (simp add: partStart.simps)
  have arr: "charOffsetInPartArr s' = charOffsetInPartArr s
      @ map (\<lambda>i. Num (visualColumn input i - visualColumn input (partStart input k)))
          [partStart input k..<charIndex s'] @ []"
    using oinv c by (simp add: offsetInv_def)
  have "partsDone input (Suc k) (charOffsetInPartArr s')"
    unfolding arr by (rule partsDone_Suc[OF pd len c1])
  then show ?thesis
    using oinv k c c1 by (simp add: partsInv_def offsetInv_def)
qed

lemma partsLoop_offsets:
  assumes ts: "1 \<le> tabSize input"
  shows "case partsLoop js input 0 initialLocals of
           Continue s' \<Rightarrow> partsInv input (length (parts input)) s'
         | Return r \<Rightarrow> \<exists>k A0. k < length (parts input) \<and> length A0 = partStart input k
              \<and> partsDone input k A0
              \<and> truncatedTable input (partStart input k) A0 (toCharIndex input k) r"
proof -
  have rule: "case partsLoop js input 0 initialLocals of
           Continue s' \<Rightarrow> \<exists>k. partsInv input k s' \<and> \<not> k < length (parts input) \<and> 0 \<le> k
         | Return r \<Rightarrow> \<exists>k s. partsInv input k s \<and> k < length (parts input) \<and> 0 \<le> k
              \<and> renderPart js input k s = Return r"
  proof (rule partsLoop_rule[where js = js, where Q = "partsInv input" and ?k0.0 = 0])
    show "partsInv input 0 initialLocals" by (rule partsInv_initial)
  next
    fix k s s'
    assume "partsInv input k s" "k < length (parts input)" "renderPart js input k s = Continue s'"
    then show "partsInv input (k + 1) s'" by (rule partsInv_step[where js = js, OF ts])
  qed
  show ?thesis
  proof (cases "partsLoop js input 0 initialLocals")
    case (Continue s')
    with rule obtain k where k: "partsInv input k s'" "\<not> k < length (parts input)" by auto
    then have "k = length (parts input)" by (simp add: partsInv_def)
    then show ?thesis using k Continue by simp
  next
    case (Return r)
    with rule obtain k s where ks: "partsInv input k s" "k < length (parts input)"
      "renderPart js input k s = Return r" by auto
    have tinv: "tableInv input s" and c: "charIndex s = partStart input k"
      and delta: "tabsCharDelta s = Num (visualColumn input (charIndex s) - int (charIndex s))"
      and pd: "partsDone input k (charOffsetInPartArr s)"
      using ks(1) by (simp_all add: partsInv_def)
    have len: "length (charOffsetInPartArr s) = partStart input k"
      using tinv c by (simp add: tableInv_def)
    from renderPart_offsets[where js = js, OF ts tinv delta, of k] ks(3)
    have "truncatedTable input (partStart input k) (charOffsetInPartArr s) (toCharIndex input k) r"
      using c by simp
    then have "\<exists>k A0. k < length (parts input) \<and> length A0 = partStart input k
              \<and> partsDone input k A0
              \<and> truncatedTable input (partStart input k) A0 (toCharIndex input k) r"
      using ks(2) len pd by blast
    then show ?thesis using Return by simp
  qed
qed

text \<open>The offset table, entry by entry, of a line rendered to its end.\<close>

lemma offset_table_untruncated:
  assumes ts: "1 \<le> tabSize input"
    and nonempty: "parts input \<noteq> []" "lineContent input \<noteq> []"
    and nobreak: "int (lineTextLength input) \<le> charBreakIndex input"
  shows "k < length (parts input) \<Longrightarrow> partStart input k \<le> i \<Longrightarrow> i < partStart input (Suc k)
      \<Longrightarrow> charOffsetInPart (renderLineActual js input) ! i
        = Num (visualColumn input i - visualColumn input (partStart input k))"
    and "charOffsetInPart (renderLineActual js input) ! (lineTextLength input)
        = Num (visualColumn input (lineTextLength input)
             - visualColumn input (partStart input (length (parts input) - 1)))"
proof -
  obtain s' where s': "partsLoop js input 0 initialLocals = Continue s'"
    using partsLoop_tableInv[where js = js, OF nonempty] nobreak
    by (cases "partsLoop js input 0 initialLocals") (auto simp: truncatedResult_def)
  then have inv: "partsInv input (length (parts input)) s'"
    using partsLoop_offsets[where js = js, OF ts] by simp
  have r: "charOffsetInPart (renderLineActual js input) = charOffsetInPartArr s' @ [charOffsetInPart' s']"
    using s' by (simp add: renderLineActual_def)
  have len: "length (charOffsetInPartArr s') = lineTextLength input"
    using inv partStart_length[OF nonempty(1)] by (simp add: partsInv_def tableInv_def)
  have pd: "partsDone input (length (parts input)) (charOffsetInPartArr s' @ [charOffsetInPart' s'])"
    using inv partsDone_append[of input "length (parts input)" "charOffsetInPartArr s'"] len
      partStart_length[OF nonempty(1)]
    by (simp add: partsInv_def)
  show "charOffsetInPart (renderLineActual js input) ! i
        = Num (visualColumn input i - visualColumn input (partStart input k))"
    if "k < length (parts input)" "partStart input k \<le> i" "i < partStart input (Suc k)"
    using pd that unfolding r by (simp add: partsDone_def)
  have "0 < length (parts input)" using nonempty(1) by simp
  then have "charOffsetInPart' s' = Num (visualColumn input (lineTextLength input)
             - visualColumn input (partStart input (length (parts input) - 1)))"
    using inv partStart_length[OF nonempty(1)] by (simp add: partsInv_def)
  then show "charOffsetInPart (renderLineActual js input) ! (lineTextLength input)
        = Num (visualColumn input (lineTextLength input)
             - visualColumn input (partStart input (length (parts input) - 1)))"
    unfolding r using len by (simp add: nth_append)
qed

text \<open>The offset table of a truncated line: the last entry is the offset after its character.\<close>

lemma offset_table_truncated:
  assumes ts: "1 \<le> tabSize input"
    and nonempty: "parts input \<noteq> []" "lineContent input \<noteq> []"
    and break: "charBreakIndex input < int (lineTextLength input)"
    and k: "k < length (parts input)" "partStart input k \<le> i" "i < partStart input (Suc k)"
    and i: "i \<le> nat (charBreakIndex input)"
  shows "charOffsetInPart (renderLineActual js input) ! i
        = Num (visualColumn input (if i = nat (charBreakIndex input) then Suc i else i)
             - visualColumn input (partStart input k))"
proof -
  let ?t = "nat (charBreakIndex input)"
  obtain r where r: "partsLoop js input 0 initialLocals = Return r"
    using partsLoop_tableInv[where js = js, OF nonempty] break
    by (cases "partsLoop js input 0 initialLocals") auto
  then have res: "renderLineActual js input = r" by (simp add: renderLineActual_def)
  from partsLoop_offsets[where js = js, OF ts] r obtain kt A0 where kt: "kt < length (parts input)"
    and len: "length A0 = partStart input kt" and pd: "partsDone input kt A0"
    and tt: "truncatedTable input (partStart input kt) A0 (toCharIndex input kt) r"
    by auto
  let ?f = "\<lambda>i. Num (visualColumn input i - visualColumn input (partStart input kt))"
  have c0: "partStart input kt \<le> ?t" and t: "int ?t < toCharIndex input kt"
    and table: "charOffsetInPart r = A0 @ map ?f [partStart input kt..<?t]
        @ [Num (visualColumn input (Suc ?t) - visualColumn input (partStart input kt))]"
    using tt by (simp_all add: truncatedTable_def)
  have "?t < nat (toCharIndex input kt)" using t by linarith
  moreover have "nat (toCharIndex input kt) \<le> partStart input (Suc kt)"
    unfolding partStart.simps by (rule max.cobounded2)
  ultimately have t': "?t < partStart input (Suc kt)" by (rule less_le_trans)
  consider "k < kt" | "k = kt" | "kt < k" by linarith
  then show ?thesis
  proof cases
    case 1
    then have "partStart input (Suc k) \<le> partStart input kt"
      using partStart_mono[of "Suc k" kt input] by simp
    then have "i < partStart input kt" using k(3) by simp
    then have "i \<noteq> ?t" using c0 by simp
    moreover have "charOffsetInPart r ! i
        = Num (visualColumn input i - visualColumn input (partStart input k))"
      using partsDone_append[OF pd len] 1 k unfolding table by (simp add: partsDone_def)
    ultimately show ?thesis using res by simp
  next
    case 2
    show ?thesis
    proof (cases "i = ?t")
      case True
      have "length (A0 @ map ?f [partStart input kt..<?t]) = ?t" using len c0 by simp
      then have "charOffsetInPart r ! ?t
          = Num (visualColumn input (Suc ?t) - visualColumn input (partStart input kt))"
        unfolding table by (metis append_assoc nth_append_length)
      then show ?thesis using True 2 res by simp
    next
      case False
      then have "i < ?t" using i by simp
      then have "charOffsetInPart r ! i = ?f i"
        unfolding table using nth_append_interval[OF len, of i ?t ?f] k(2) 2 by simp
      then show ?thesis using False 2 res by simp
    qed
  next
    case 3
    then have "partStart input (Suc kt) \<le> partStart input k"
      using partStart_mono[of "Suc kt" k input] by simp
    then have False using t' k(2) i by simp
    then show ?thesis ..
  qed
qed

lemma validParts_nth_mono:
  assumes "validParts input" "k \<le> k'" "k' < length (parts input)"
  shows "startIndex (parts input ! k) \<le> startIndex (parts input ! k')"
proof -
  have "sorted (map startIndex (parts input))" using assms(1) by (simp add: validParts_def)
  then have "map startIndex (parts input) ! k \<le> map startIndex (parts input) ! k'"
    using assms(2,3) by (simp add: sorted_iff_nth_mono)
  then show ?thesis using assms(2,3) by simp
qed

lemma validParts_nonneg:
  assumes "validParts input" "k < length (parts input)"
  shows "0 \<le> startIndex (parts input ! k)"
  using validParts_nth_mono[OF assms(1), of 0 k] assms by (simp add: validParts_def)

lemma partStart_valid:
  assumes v: "validParts input"
  shows "k < length (parts input) \<Longrightarrow>
    int (partStart input k) = min (int (lineTextLength input)) (startIndex (parts input ! k))"
proof (induction k)
  case 0
  then show ?case using v by (simp add: partStart.simps validParts_def)
next
  case (Suc k)
  then have ih: "int (partStart input k)
      = min (int (lineTextLength input)) (startIndex (parts input ! k))" by simp
  have to: "toCharIndex input k
      = min (int (lineTextLength input)) (startIndex (parts input ! Suc k))"
    using Suc.prems by (simp add: toCharIndex_def)
  have "startIndex (parts input ! k) \<le> startIndex (parts input ! Suc k)"
    using validParts_nth_mono[OF v, of k "Suc k"] Suc.prems by simp
  moreover have "0 \<le> startIndex (parts input ! Suc k)"
    using validParts_nonneg[OF v Suc.prems] .
  ultimately show ?case using ih to unfolding partStart.simps by linarith
qed

text \<open>In a valid list of parts, the indices a part renders are those from its start index on.\<close>

lemma valid_segment_range:
  assumes v: "validParts input" and k: "k < length (parts input)"
    and i: "startIndex (parts input ! k) \<le> int i" "int i < toCharIndex input k"
  shows "int (partStart input k) = startIndex (parts input ! k)"
    and "partStart input k \<le> i" and "i < partStart input (Suc k)"
proof -
  have "int i < int (lineTextLength input)" using i(2) toCharIndex_le[of input k] by linarith
  then show eq: "int (partStart input k) = startIndex (parts input ! k)"
    using partStart_valid[OF v k] i(1) by linarith
  then show "partStart input k \<le> i" using i(1) by linarith
  have "nat (toCharIndex input k) \<le> partStart input (Suc k)"
    unfolding partStart.simps by (rule max.cobounded2)
  then show "i < partStart input (Suc k)" using i(2) by linarith
qed

text \<open>
  The entry of an index in the range of a part of a valid list: the visual column of the
  index relative to that of the part's start; where the line was cut, the visual column
  after the character.
\<close>

lemma offset_table_entry:
  assumes ts: "1 \<le> tabSize input"
    and line: "lineContent input \<noteq> []" and v: "validParts input"
    and k: "k < length (parts input)"
    and i: "startIndex (parts input ! k) \<le> int i" "int i < toCharIndex input k"
      "i < length (charOffsetInPart (renderLineActual js input))"
  shows "charOffsetInPart (renderLineActual js input) ! i
     = Num (visualColumn input
              (if charBreakIndex input < int (lineTextLength input)
                  \<and> i = nat (charBreakIndex input) then Suc i else i)
            - visualColumn input (partStart input k))"
proof -
  have ne: "parts input \<noteq> []" using v by (simp add: validParts_def)
  note range = valid_segment_range[OF v k i(1,2)]
  show ?thesis
  proof (cases "charBreakIndex input < int (lineTextLength input)")
    case True
    from renderLineActual_truncated[where js = js, OF ne line True]
    have "length (charOffsetInPart (renderLineActual js input)) = nat (charBreakIndex input) + 1"
      by (auto simp: truncatedResult_def)
    then have "i \<le> nat (charBreakIndex input)" using i(3) by simp
    from offset_table_truncated[where js = js, OF ts ne line True k range(2,3) this]
    show ?thesis using True by simp
  next
    case False
    then have "int (lineTextLength input) \<le> charBreakIndex input" by simp
    from offset_table_untruncated(1)[where js = js, OF ts ne line this k range(2,3)]
    show ?thesis using False by simp
  qed
qed

section \<open>Coverage of the offset table\<close>

text \<open>
  Claim C4, as the code has it. For a non-empty line, a valid list of parts (not empty,
  the first part starting at 0, start indices ascending) and a tab size of at least 1:
  the offset table has \<open>max 0 breakIndex + 1\<close> entries when the line is cut (the break
  index is below the length of the text) and one entry more than the text has characters
  otherwise; inside the index range of each part the entries are integers that never
  decrease; and the entry at the start index of a part is 0, unless it is the last entry
  of a cut line, which holds the offset after its character. The empty line has an empty
  table (claim C5).
\<close>

theorem offset_table_coverage:
  assumes "lineContent input \<noteq> []" and "validParts input" and "1 \<le> tabSize input"
  shows "\<exists>r. renderLine js input = Inr r
     \<and> length (charOffsetInPart r)
         = (if charBreakIndex input < int (length (lineContent input))
            then nat (max 0 (charBreakIndex input)) + 1
            else length (lineContent input) + 1)
     \<and> (\<forall>k i j. k < length (parts input) \<and> startIndex (parts input ! k) \<le> int i \<and> i \<le> j
           \<and> int j < toCharIndex input k \<and> j < length (charOffsetInPart r)
         \<longrightarrow> (\<exists>x y. charOffsetInPart r ! i = Num x \<and> charOffsetInPart r ! j = Num y \<and> x \<le> y))
     \<and> (\<forall>k i. k < length (parts input) \<and> startIndex (parts input ! k) = int i
           \<and> int i < toCharIndex input k \<and> i < length (charOffsetInPart r)
           \<and> \<not> (charBreakIndex input < int (length (lineContent input))
                \<and> i = nat (charBreakIndex input))
         \<longrightarrow> charOffsetInPart r ! i = Num 0)"
proof -
  let ?r = "renderLineActual js input"
  let ?cut = "charBreakIndex input < int (lineTextLength input)"
  have ne: "parts input \<noteq> []" using assms(2) by (simp add: validParts_def)
  have r: "renderLine js input = Inr ?r" using renderLine_nonempty[where js = js, OF assms(1) ne] .
  have len: "length (charOffsetInPart ?r)
         = (if charBreakIndex input < int (length (lineContent input))
            then nat (max 0 (charBreakIndex input)) + 1
            else length (lineContent input) + 1)"
  proof (cases ?cut)
    case True
    from renderLineActual_truncated[where js = js, OF ne assms(1) True]
    show ?thesis using True by (auto simp: truncatedResult_def lineTextLength_def)
  next
    case False
    then have "int (lineTextLength input) \<le> charBreakIndex input" by simp
    from renderLineActual_untruncated[where js = js, OF ne assms(1) this]
    show ?thesis using False by (simp add: lineTextLength_def)
  qed
  have mono: "\<exists>x y. charOffsetInPart ?r ! i = Num x \<and> charOffsetInPart ?r ! j = Num y \<and> x \<le> y"
    if k: "k < length (parts input)" and ij: "startIndex (parts input ! k) \<le> int i" "i \<le> j"
      "int j < toCharIndex input k" "j < length (charOffsetInPart ?r)" for k i j
  proof -
    let ?at = "\<lambda>i. if ?cut \<and> i = nat (charBreakIndex input) then Suc i else i"
    have ei: "charOffsetInPart ?r ! i
        = Num (visualColumn input (?at i) - visualColumn input (partStart input k))"
      using offset_table_entry[where js = js, OF assms(3,1,2) k, of i] ij by simp
    have ej: "charOffsetInPart ?r ! j
        = Num (visualColumn input (?at j) - visualColumn input (partStart input k))"
      using offset_table_entry[where js = js, OF assms(3,1,2) k, of j] ij by simp
    have "j \<le> nat (charBreakIndex input)" if ?cut
      using that len ij(4) by (simp add: lineTextLength_def split: if_splits)
    then have "?at i \<le> ?at j" using ij(2) by auto
    then have "visualColumn input (?at i) \<le> visualColumn input (?at j)"
      by (rule visualColumn_mono[OF assms(3)])
    then show ?thesis using ei ej by simp
  qed
  have reset: "charOffsetInPart ?r ! i = Num 0"
    if k: "k < length (parts input)" and i: "startIndex (parts input ! k) = int i"
      "int i < toCharIndex input k" "i < length (charOffsetInPart ?r)"
      "\<not> (charBreakIndex input < int (length (lineContent input))
                \<and> i = nat (charBreakIndex input))" for k i
  proof -
    have "int (partStart input k) = int i"
      using valid_segment_range(1)[OF assms(2) k, of i] i by simp
    then have "partStart input k = i" by simp
    then show ?thesis
      using offset_table_entry[where js = js, OF assms(3,1,2) k, of i] i by (simp add: lineTextLength_def)
  qed
  show ?thesis using r len mono reset by blast
qed

theorem offset_table_coverage_witness:
  "lineContent \<lparr>lineContent = [97, 9, 98, 99, 100], tabSize = 4, spaceWidth = (7::int),
        stopRenderingLineAfter = - 1, renderWhitespace = RW_none, renderHardSpace = False,
        renderControlCharacters = False,
        parts = [\<lparr>startIndex = 0, type = lit ''a''\<rparr>, \<lparr>startIndex = 2, type = lit ''b''\<rparr>]\<rparr> \<noteq> []
   \<and> validParts \<lparr>lineContent = [97, 9, 98, 99, 100], tabSize = 4, spaceWidth = (7::int),
        stopRenderingLineAfter = - 1, renderWhitespace = RW_none, renderHardSpace = False,
        renderControlCharacters = False,
        parts = [\<lparr>startIndex = 0, type = lit ''a''\<rparr>, \<lparr>startIndex = 2, type = lit ''b''\<rparr>]\<rparr>
   \<and> (\<exists>r. renderLine wholeNumbers \<lparr>lineContent = [97, 9, 98, 99, 100], tabSize = 4, spaceWidth = (7::int),
        stopRenderingLineAfter = - 1, renderWhitespace = RW_none, renderHardSpace = False,
        renderControlCharacters = False,
        parts = [\<lparr>startIndex = 0, type = lit ''a''\<rparr>, \<lparr>startIndex = 2, type = lit ''b''\<rparr>]\<rparr>
          = Inr r
        \<and> length (charOffsetInPart r) = 6
        \<and> charOffsetInPart r ! 2 = Num 0
        \<and> (\<exists>x y. charOffsetInPart r ! 3 = Num x \<and> charOffsetInPart r ! 4 = Num y \<and> x \<le> y))"
proof -
  let ?X = "\<lparr>lineContent = [97, 9, 98, 99, 100], tabSize = 4, spaceWidth = (7::int),
        stopRenderingLineAfter = - 1, renderWhitespace = RW_none, renderHardSpace = False,
        renderControlCharacters = False,
        parts = [\<lparr>startIndex = 0, type = lit ''a''\<rparr>, \<lparr>startIndex = 2, type = lit ''b''\<rparr>]\<rparr>"
  have h1: "lineContent ?X \<noteq> []" by simp
  have h2: "validParts ?X" by (simp add: validParts_def)
  have h3: "1 \<le> tabSize ?X" by simp
  have b: "charBreakIndex ?X = 5" by (simp add: charBreakIndex_def lineTextLength_def)
  have to: "toCharIndex ?X 1 = 5" by (simp add: toCharIndex_def lineTextLength_def)
  from offset_table_coverage[where js = wholeNumbers, OF h1 h2 h3] obtain r where r: "renderLine wholeNumbers ?X = Inr r"
    and len: "length (charOffsetInPart r)
         = (if charBreakIndex ?X < int (length (lineContent ?X))
            then nat (max 0 (charBreakIndex ?X)) + 1
            else length (lineContent ?X) + 1)"
    and mono: "\<forall>k i j. k < length (parts ?X) \<and> startIndex (parts ?X ! k) \<le> int i \<and> i \<le> j
           \<and> int j < toCharIndex ?X k \<and> j < length (charOffsetInPart r)
         \<longrightarrow> (\<exists>x y. charOffsetInPart r ! i = Num x \<and> charOffsetInPart r ! j = Num y \<and> x \<le> y)"
    and reset: "\<forall>k i. k < length (parts ?X) \<and> startIndex (parts ?X ! k) = int i
           \<and> int i < toCharIndex ?X k \<and> i < length (charOffsetInPart r)
           \<and> \<not> (charBreakIndex ?X < int (length (lineContent ?X))
                \<and> i = nat (charBreakIndex ?X))
         \<longrightarrow> charOffsetInPart r ! i = Num 0"
    by blast
  have l6: "length (charOffsetInPart r) = 6" using len b by simp
  have "charOffsetInPart r ! 2 = Num 0"
    using reset[rule_format, of 1 2] l6 b to by simp
  moreover have "\<exists>x y. charOffsetInPart r ! 3 = Num x \<and> charOffsetInPart r ! 4 = Num y \<and> x \<le> y"
    using mono[rule_format, of 1 3 4] l6 to by simp
  ultimately show ?thesis using h1 h2 r l6 by blast
qed

theorem offset_table_coverage_counterexample:
  \<open>renderLine wholeNumbers \<lparr>lineContent = lit ''ab'', tabSize = 4, spaceWidth = (7::int),
        stopRenderingLineAfter = 0, renderWhitespace = RW_none, renderHardSpace = False,
        renderControlCharacters = False,
        parts = [\<lparr>startIndex = 0, type = lit ''plain''\<rparr>]\<rparr>
     = Inr \<lparr>charOffsetInPart = [Num 1], lastRenderedPartIndex = 0,
            output' = lit ''<span><span class="token plain">a&hellip;</span></span>''\<rparr>
   \<and> int (length [Num 1])
       \<noteq> min (int (length (lit ''ab'')))
             (charBreakIndex \<lparr>lineContent = lit ''ab'', tabSize = 4, spaceWidth = (7::int),
                stopRenderingLineAfter = 0, renderWhitespace = RW_none, renderHardSpace = False,
                renderControlCharacters = False,
                parts = [\<lparr>startIndex = 0, type = lit ''plain''\<rparr>]\<rparr>) + 1
   \<and> [Num 1] ! 0 \<noteq> Num 0\<close>
  by (simp add: renderLine_unfold plain_unfold parsRendersWhitespace_def lit_def)

section \<open>The glyphs inserted for a tab\<close>

lemma insertSpaces_Num:
  "insertSpaces (Num k) str = str @ concat (replicate (nat k) (lit ''&nbsp;''))"
proof (induction "nat k" arbitrary: k str)
  case 0
  then show ?case by (subst insertSpaces.simps) simp
next
  case (Suc m)
  then have "m = nat (k - 1)" "0 < k" by linarith+
  then have "insertSpaces (Num (k - 1)) (str @ lit ''&nbsp;'')
      = (str @ lit ''&nbsp;'') @ concat (replicate (nat (k - 1)) (lit ''&nbsp;''))"
    using Suc.hyps(1) by blast
  moreover have "nat k = Suc (nat (k - 1))" using \<open>0 < k\<close> by simp
  ultimately show ?case using \<open>0 < k\<close>
    by (subst insertSpaces.simps) (simp add: replicate_app_Cons_same)
qed

lemma insertCountedSpaces_Num:
  "insertCountedSpaces (Num k) str cnt
     = (str @ concat (replicate (nat k) (lit ''&nbsp;'')), cnt + nat k)"
proof (induction "nat k" arbitrary: k str cnt)
  case 0
  then show ?case by (subst insertCountedSpaces.simps) simp
next
  case (Suc m)
  then have "m = nat (k - 1)" "0 < k" by linarith+
  then have "insertCountedSpaces (Num (k - 1)) (str @ lit ''&nbsp;'') (cnt + 1)
      = ((str @ lit ''&nbsp;'') @ concat (replicate (nat (k - 1)) (lit ''&nbsp;'')),
         (cnt + 1) + nat (k - 1))"
    using Suc.hyps(1) by blast
  moreover have "nat k = Suc (nat (k - 1))" using \<open>0 < k\<close> by simp
  ultimately show ?case using \<open>0 < k\<close>
    by (subst insertCountedSpaces.simps) (simp add: replicate_app_Cons_same)
qed

lemma insertArrowAndSpaces_Num:
  assumes "0 < k"
  shows "insertArrowAndSpaces (Num k) str cnt
     = (str @ lit ''&rarr;'' @ concat (replicate (nat k - 1) (lit ''&nbsp;'')), cnt + nat k)"
proof -
  have "nat (k - 1) = nat k - 1" "Suc (cnt + (nat k - 1)) = cnt + nat k" using assms by linarith+
  then show ?thesis using assms
    by (simp add: insertArrowAndSpaces_def insertCountedSpaces_Num)
qed






section \<open>Tab expansion\<close>



section \<open>The glyphs of a whitespace part\<close>

lemma insertCountedSpaces_other:
  "\<not> num_gt n (Num 0) \<Longrightarrow> insertCountedSpaces n str cnt = (str, cnt)"
  by (subst insertCountedSpaces.simps) simp

lemma insertArrowAndSpaces_glyphs:
  "\<exists>gs. set gs \<subseteq> whitespaceGlyphs
     \<and> insertArrowAndSpaces n str cnt = (str @ concat gs, cnt + length gs)"
proof (cases "num_gt n (Num 0)")
  case True
  then obtain k where k: "n = Num k" "0 < k" by (cases n) auto
  let ?gs = "lit ''&rarr;'' # replicate (nat k - 1) (lit ''&nbsp;'')"
  have "set ?gs \<subseteq> whitespaceGlyphs" by (auto simp: whitespaceGlyphs_def)
  moreover have "insertArrowAndSpaces n str cnt = (str @ concat ?gs, cnt + length ?gs)"
    using insertArrowAndSpaces_Num[OF k(2), of str cnt] k by simp
  ultimately show ?thesis by blast
next
  case False
  then have "insertArrowAndSpaces n str cnt = (str @ concat [], cnt + length ([] :: jsstring list))"
    by (simp add: insertArrowAndSpaces_def insertCountedSpaces_other)
  then show ?thesis by (metis empty_set empty_subsetI)
qed

lemma out_renderWhitespaceChar [simp]: "out (renderWhitespaceChar input s) = out s"
  by (simp add: renderWhitespaceChar_def Let_def split: prod.splits)

lemma partContent_renderWhitespaceChar:
  "(partContent (renderWhitespaceChar input s), partContentCnt (renderWhitespaceChar input s)) =
     (if charCodeAt (lineContent input) (charIndex s) = Some CharCode_Tab
      then insertArrowAndSpaces (insertSpacesCount input s) (partContent s) (partContentCnt s)
      else (partContent s @ lit ''&middot;'', partContentCnt s + 1))"
  by (simp add: renderWhitespaceChar_def Let_def insertSpacesCount_def split: prod.splits)

lemma glyphInv_step:
  assumes "glyphInv out0 s"
  shows "glyphInv out0 (renderWhitespaceChar input s)"
    and "glyphInv out0 ((renderWhitespaceChar input s)\<lparr>charIndex := c\<rparr>)"
proof -
  from assms obtain gs where gs: "set gs \<subseteq> whitespaceGlyphs" "partContent s = concat gs"
    "partContentCnt s = length gs" and o: "out s = out0"
    by (auto simp: glyphInv_def)
  have "\<exists>gs'. set gs' \<subseteq> whitespaceGlyphs
      \<and> partContent (renderWhitespaceChar input s) = concat gs'
      \<and> partContentCnt (renderWhitespaceChar input s) = length gs'"
  proof (cases "charCodeAt (lineContent input) (charIndex s) = Some CharCode_Tab")
    case True
    obtain hs where hs: "set hs \<subseteq> whitespaceGlyphs"
      "insertArrowAndSpaces (insertSpacesCount input s) (partContent s) (partContentCnt s)
         = (partContent s @ concat hs, partContentCnt s + length hs)"
      using insertArrowAndSpaces_glyphs by blast
    have "partContent (renderWhitespaceChar input s) = concat (gs @ hs)"
      "partContentCnt (renderWhitespaceChar input s) = length (gs @ hs)"
      using partContent_renderWhitespaceChar[of input s] True hs(2) gs by simp_all
    moreover have "set (gs @ hs) \<subseteq> whitespaceGlyphs" using gs(1) hs(1) by simp
    ultimately show ?thesis by blast
  next
    case False
    have "partContent (renderWhitespaceChar input s) = concat (gs @ [lit ''&middot;''])"
      "partContentCnt (renderWhitespaceChar input s) = length (gs @ [lit ''&middot;''])"
      using partContent_renderWhitespaceChar[of input s] False gs by simp_all
    moreover have "set (gs @ [lit ''&middot;'']) \<subseteq> whitespaceGlyphs"
      using gs(1) by (simp add: whitespaceGlyphs_def)
    ultimately show ?thesis by blast
  qed
  then show "glyphInv out0 (renderWhitespaceChar input s)"
    and "glyphInv out0 ((renderWhitespaceChar input s)\<lparr>charIndex := c\<rparr>)"
    using o by (simp_all add: glyphInv_def)
qed

lemma whitespaceLoop_glyphs:
  assumes "glyphInv out0 s0"
  shows "\<exists>gs. set gs \<subseteq> whitespaceGlyphs \<and>
     (case whitespaceLoop js input part k to s0 of
        Continue s' \<Rightarrow> out s' = out0 \<and> partContent s' = concat gs
           \<and> partContentCnt s' = length gs
      | Return r \<Rightarrow> output' r = out0
           @ (lit ''<span class=\"token '' @ type part @ lit ''\" style=\"width:''
                @ map numcharCode (toText js (timesCount js (spaceWidth input) (length gs))) @ lit ''px\">'')
           @ concat gs @ lit ''&hellip;</span></span>'')"
proof -
  have rule: "case whitespaceLoop js input part k to s0 of
           Continue s' \<Rightarrow> glyphInv out0 s' \<and> \<not> int (charIndex s') < to
         | Return r \<Rightarrow> \<exists>s. glyphInv out0 s \<and> int (charIndex s) < to
              \<and> charBreakIndex input \<le> int (charIndex s)
              \<and> r = \<lparr>charOffsetInPart = array_set (charOffsetInPartArr (renderWhitespaceChar input s))
                        (charIndex s) (charOffsetInPart' (renderWhitespaceChar input s)),
                      lastRenderedPartIndex = int k,
                      output' = out (renderWhitespaceChar input s)
                        @ whitespaceSpanOpen js input part (renderWhitespaceChar input s)
                        @ partContent (renderWhitespaceChar input s)
                        @ lit ''&hellip;</span></span>''\<rparr>"
  proof (rule whitespaceLoop_rule[where js = js, where Q = "glyphInv out0"])
    show "glyphInv out0 s0" by (rule assms)
  next
    fix s
    assume "glyphInv out0 s"
    then show "glyphInv out0 ((renderWhitespaceChar input s)\<lparr>charIndex := charIndex s + 1\<rparr>)"
      by (rule glyphInv_step(2))
  qed
  show ?thesis
  proof (cases "whitespaceLoop js input part k to s0")
    case (Continue s')
    with rule have "glyphInv out0 s'" by simp
    then show ?thesis using Continue by (auto simp: glyphInv_def)
  next
    case (Return r)
    with rule obtain s where s: "glyphInv out0 s"
      and r: "output' r = out (renderWhitespaceChar input s)
                        @ whitespaceSpanOpen js input part (renderWhitespaceChar input s)
                        @ partContent (renderWhitespaceChar input s)
                        @ lit ''&hellip;</span></span>''"
      by auto
    from glyphInv_step(1)[OF s, of input] obtain gs where gs: "set gs \<subseteq> whitespaceGlyphs"
      "partContent (renderWhitespaceChar input s) = concat gs"
      "partContentCnt (renderWhitespaceChar input s) = length gs"
      and o: "out (renderWhitespaceChar input s) = out0"
      by (auto simp: glyphInv_def)
    have "output' r = out0
           @ (lit ''<span class=\"token '' @ type part @ lit ''\" style=\"width:''
                @ map numcharCode (toText js (timesCount js (spaceWidth input) (length gs))) @ lit ''px\">'')
           @ concat gs @ lit ''&hellip;</span></span>''"
      unfolding r using gs(2,3) o by (simp add: whitespaceSpanOpen_def)
    then show ?thesis using Return gs(1) by auto
  qed
qed

lemmas whitespace_unfold =
  whitespaceLoop.simps renderWhitespaceChar_def whitespaceSpanOpen_def charCodeAt_def
  CharCode_defs array_set_def

section \<open>Whitespace parts\<close>

text \<open>
  Claim C7. In a part rendered by the whitespace branch (whitespace rendering is on and
  the category of the part is a whitespace category) a space is emitted as a middle dot and
  counted as one glyph. Whatever the part contains and whether or not the line is cut in
  it, what the part adds to the markup is the opening tag with the width, then the glyphs
  (arrows, non-breaking spaces and middle dots), then the closing tag or the ellipsis. The
  width is the text JavaScript prints for the product of \<open>spaceWidth\<close> and the number of
  these glyphs, whatever number \<open>spaceWidth\<close> is, followed by \<^verbatim>\<open>px\<close>. A line made of one space
  in one whitespace part has the width \<open>spaceWidth * 1\<close>.
\<close>

theorem whitespace_part_width:
  \<open>(charCodeAt (lineContent input) (charIndex s) = Some CharCode_Space \<longrightarrow>
      partContent (renderWhitespaceChar input s) = partContent s @ lit ''&middot;''
      \<and> partContentCnt (renderWhitespaceChar input s) = partContentCnt s + 1)
   \<and> (parsRendersWhitespace input (parts input ! k) \<longrightarrow>
      (\<exists>gs. set gs \<subseteq> {lit ''&rarr;'', lit ''&nbsp;'', lit ''&middot;''} \<and>
         (case renderPart js input k s of
            Continue s' \<Rightarrow>
              out s' = out s
                @ lit ''<span class="token '' @ type (parts input ! k) @ lit ''" style="width:''
                @ map numcharCode (toText js (timesCount js (spaceWidth input) (length gs))) @ lit ''px">''
                @ concat gs @ lit ''</span>''
          | Return r \<Rightarrow>
              output' r = out s
                @ lit ''<span class="token '' @ type (parts input ! k) @ lit ''" style="width:''
                @ map numcharCode (toText js (timesCount js (spaceWidth input) (length gs))) @ lit ''px">''
                @ concat gs @ lit ''&hellip;</span></span>'')))
   \<and> (parts input = [p] \<and> parsRendersWhitespace input p
      \<and> lineContent input = [CharCode_Space] \<and> stopRenderingLineAfter input = - 1 \<longrightarrow>
      renderLine js input =
        Inr \<lparr>charOffsetInPart = [Num 0, Num 1], lastRenderedPartIndex = 0,
             output' = lit ''<span><span class="token '' @ type p @ lit ''" style="width:''
               @ map numcharCode (toText js (timesCount js (spaceWidth input) 1)) @ lit ''px">&middot;</span></span>''\<rparr>)\<close>
proof -
  have space: "partContent (renderWhitespaceChar input s) = partContent s @ lit ''&middot;''
      \<and> partContentCnt (renderWhitespaceChar input s) = partContentCnt s + 1"
    if "charCodeAt (lineContent input) (charIndex s) = Some CharCode_Space"
    using partContent_renderWhitespaceChar[of input s] that by (simp add: CharCode_defs)
  have part: \<open>\<exists>gs. set gs \<subseteq> {lit ''&rarr;'', lit ''&nbsp;'', lit ''&middot;''} \<and>
         (case renderPart js input k s of
            Continue s' \<Rightarrow>
              out s' = out s
                @ lit ''<span class="token '' @ type (parts input ! k) @ lit ''" style="width:''
                @ map numcharCode (toText js (timesCount js (spaceWidth input) (length gs))) @ lit ''px">''
                @ concat gs @ lit ''</span>''
          | Return r \<Rightarrow>
              output' r = out s
                @ lit ''<span class="token '' @ type (parts input ! k) @ lit ''" style="width:''
                @ map numcharCode (toText js (timesCount js (spaceWidth input) (length gs))) @ lit ''px">''
                @ concat gs @ lit ''&hellip;</span></span>'')\<close>
    if ws: "parsRendersWhitespace input (parts input ! k)"
  proof -
    let ?s = "s\<lparr>charOffsetInPart' := Num 0, partContentCnt := 0, partContent := []\<rparr>"
    have "glyphInv (out s) ?s" by (simp add: glyphInv_def)
    from whitespaceLoop_glyphs[where js = js, OF this, where input = input and part = "parts input ! k"
        and k = k and to = "toCharIndex input k"]
    obtain gs where gs: "set gs \<subseteq> whitespaceGlyphs"
      and loop: \<open>case whitespaceLoop js input (parts input ! k) k (toCharIndex input k) ?s of
        Continue s' \<Rightarrow> out s' = out s \<and> partContent s' = concat gs
           \<and> partContentCnt s' = length gs
      | Return r \<Rightarrow> output' r = out s
           @ (lit ''<span class="token '' @ type (parts input ! k) @ lit ''" style="width:''
                @ map numcharCode (toText js (timesCount js (spaceWidth input) (length gs))) @ lit ''px">'')
           @ concat gs @ lit ''&hellip;</span></span>''\<close>
      by blast
    have \<open>case renderPart js input k s of
            Continue s' \<Rightarrow>
              out s' = out s
                @ lit ''<span class="token '' @ type (parts input ! k) @ lit ''" style="width:''
                @ map numcharCode (toText js (timesCount js (spaceWidth input) (length gs))) @ lit ''px">''
                @ concat gs @ lit ''</span>''
          | Return r \<Rightarrow>
              output' r = out s
                @ lit ''<span class="token '' @ type (parts input ! k) @ lit ''" style="width:''
                @ map numcharCode (toText js (timesCount js (spaceWidth input) (length gs))) @ lit ''px">''
                @ concat gs @ lit ''&hellip;</span></span>''\<close>
    proof (cases "whitespaceLoop js input (parts input ! k) k (toCharIndex input k) ?s")
      case (Return r)
      then show ?thesis using loop by (simp add: renderPart_whitespace[where js = js, OF ws])
    next
      case (Continue s')
      then show ?thesis using loop
        by (simp add: renderPart_whitespace[where js = js, OF ws] whitespaceSpanOpen_def)
    qed
    then show ?thesis using gs unfolding whitespaceGlyphs_def by blast
  qed
  have example: \<open>renderLine js input =
        Inr \<lparr>charOffsetInPart = [Num 0, Num 1], lastRenderedPartIndex = 0,
             output' = lit ''<span><span class="token '' @ type p @ lit ''" style="width:''
               @ map numcharCode (toText js (timesCount js (spaceWidth input) 1)) @ lit ''px">&middot;</span></span>''\<rparr>\<close>
    if "parts input = [p]" "parsRendersWhitespace input p"
      "lineContent input = [CharCode_Space]" "stopRenderingLineAfter input = - 1"
    using that by (simp add: renderLine_unfold whitespace_unfold lit_def)
  show ?thesis using space part example by blast
qed

theorem whitespace_part_width_witness:
  \<open>partContent (renderWhitespaceChar
       \<lparr>lineContent = [CharCode_Space], tabSize = 4, spaceWidth = (7::int),
        stopRenderingLineAfter = - 1, renderWhitespace = RW_all, renderHardSpace = False,
        renderControlCharacters = False,
        parts = [\<lparr>startIndex = 0, type = lit ''whitespace''\<rparr>]\<rparr> initialLocals)
     = lit ''&middot;''
   \<and> renderLine wholeNumbers
       \<lparr>lineContent = [CharCode_Space], tabSize = 4, spaceWidth = (7::int),
        stopRenderingLineAfter = - 1, renderWhitespace = RW_all, renderHardSpace = False,
        renderControlCharacters = False,
        parts = [\<lparr>startIndex = 0, type = lit ''whitespace''\<rparr>]\<rparr>
     = Inr \<lparr>charOffsetInPart = [Num 0, Num 1], lastRenderedPartIndex = 0,
            output' = lit ''<span><span class="token whitespace" style="width:7px">&middot;</span></span>''\<rparr>\<close>
proof -
  let ?p = "\<lparr>startIndex = 0, type = lit ''whitespace''\<rparr>"
  let ?X = "\<lparr>lineContent = [CharCode_Space], tabSize = 4, spaceWidth = (7::int),
        stopRenderingLineAfter = - 1, renderWhitespace = RW_all, renderHardSpace = False,
        renderControlCharacters = False, parts = [?p]\<rparr>"
  note inst = whitespace_part_width[where input = ?X and s = initialLocals and k = 0 and p = ?p and js = wholeNumbers]
  have ws: "parsRendersWhitespace ?X ?p"
    by (simp add: parsRendersWhitespace_def isWhitespace_def indexOf_def lit_def)
  have "charCodeAt (lineContent ?X) (charIndex initialLocals) = Some CharCode_Space"
    by (simp add: charCodeAt_def initialLocals_def)
  with inst have a: "partContent (renderWhitespaceChar ?X initialLocals)
      = partContent initialLocals @ lit ''&middot;''" by blast
  have "parts ?X = [?p] \<and> parsRendersWhitespace ?X ?p
      \<and> lineContent ?X = [CharCode_Space] \<and> stopRenderingLineAfter ?X = - 1"
    using ws by simp
  with inst have b: \<open>renderLine wholeNumbers ?X =
        Inr \<lparr>charOffsetInPart = [Num 0, Num 1], lastRenderedPartIndex = 0,
             output' = lit ''<span><span class="token '' @ type ?p @ lit ''" style="width:''
               @ map numcharCode (toText wholeNumbers (timesCount wholeNumbers (spaceWidth ?X) 1)) @ lit ''px">&middot;</span></span>''\<rparr>\<close>
    by blast
  have "map numcharCode (toText wholeNumbers (timesCount wholeNumbers 7 1)) = lit ''7''"
    by (simp add: wholeNumbers_def decimalText_def decimalDigits.simps lit_def)
  then show ?thesis using a b by (simp add: initialLocals_def lit_def)
qed

section \<open>Markup without carriage returns\<close>

lemma noCR_append [simp]: "noCR (a @ b) \<longleftrightarrow> noCR a \<and> noCR b"
  by (auto simp: noCR_def)

lemma noCR_Nil [simp]: "noCR []"
  by (simp add: noCR_def)

lemma noCR_concat: "(\<And>g. g \<in> set gs \<Longrightarrow> noCR g) \<Longrightarrow> noCR (concat gs)"
  by (induction gs) auto

lemma noCR_literals [simp]:
  "noCR (lit ''&nbsp;'')" "noCR (lit ''&rarr;'')" "noCR (lit ''&middot;'')"
  "noCR (lit ''&lt;'')" "noCR (lit ''&gt;'')" "noCR (lit ''&amp;'')" "noCR (lit ''&#00;'')"
  "noCR (lit ''&#8203'')" "noCR (lit ''&hellip;</span></span>'')" "noCR (lit ''</span>'')"
  "noCR (lit ''<span>'')" "noCR (lit ''<span><span>&nbsp;</span></span>'')"
  "noCR (lit ''px\">'')" "noCR (lit ''\">'')" "noCR (lit ''<span class=\"token '')"
  "noCR (lit ''\" style=\"width:'')"
  by (simp_all add: noCR_def lit_def CharCode_defs)

lemma noCR_numberText [simp]: "noCR (map numcharCode t)"
proof -
  have "numcharCode c \<noteq> CharCode_CarriageReturn" for c
    by (cases c) (simp_all add: CharCode_defs)
  then show ?thesis unfolding noCR_def by (metis imageE list.set_map)
qed

lemma insertSpaces_other: "\<not> num_gt n (Num 0) \<Longrightarrow> insertSpaces n str = str"
  by (subst insertSpaces.simps) simp

lemma noCR_insertSpaces: "noCR str \<Longrightarrow> noCR (insertSpaces n str)"
proof (cases n)
  case (Num k)
  assume "noCR str"
  moreover have "noCR (concat (replicate (nat k) (lit ''&nbsp;'')))"
    by (rule noCR_concat) simp
  ultimately show ?thesis unfolding Num insertSpaces_Num by simp
qed (simp_all add: insertSpaces_other)

lemma noCR_whitespaceGlyphs: "g \<in> whitespaceGlyphs \<Longrightarrow> noCR g"
  by (auto simp: whitespaceGlyphs_def)

lemma noCR_plainCharMarkup:
  "noCR (plainCharMarkup input i (charCodeAt (lineContent input) i))"
proof (cases "i < length (lineContent input)")
  case True
  then show ?thesis
    by (auto simp: plainCharMarkup_def charCodeAt_def charAt_def noCR_def
        controlCharacterToPrintable_def controlCharacterSequenceConversionStart_def
        isControlCharacter_def CharCode_defs lit_def)
next
  case False
  then show ?thesis
    by (simp add: plainCharMarkup_def charCodeAt_def charAt_def)
qed

lemma partContent_renderPlainChar [simp]:
  "partContent (renderPlainChar input s) = partContent s"
  by (simp add: renderPlainChar_def Let_def)

lemma crInv_plain:
  assumes "crInv s"
  shows "crInv (renderPlainChar input s)"
    and "crInv ((renderPlainChar input s)\<lparr>charIndex := c\<rparr>)"
proof -
  have "noCR (out (renderPlainChar input s))"
    using assms noCR_plainCharMarkup[of input "charIndex s"]
    by (simp add: renderPlainChar_def Let_def crInv_def noCR_insertSpaces)
  then show "crInv (renderPlainChar input s)"
    and "crInv ((renderPlainChar input s)\<lparr>charIndex := c\<rparr>)"
    using assms by (simp_all add: crInv_def)
qed

lemma crInv_whitespace:
  assumes "crInv s"
  shows "crInv (renderWhitespaceChar input s)"
    and "crInv ((renderWhitespaceChar input s)\<lparr>charIndex := c\<rparr>)"
proof -
  have "noCR (partContent (renderWhitespaceChar input s))"
  proof (cases "charCodeAt (lineContent input) (charIndex s) = Some CharCode_Tab")
    case True
    obtain hs where hs: "set hs \<subseteq> whitespaceGlyphs"
      "insertArrowAndSpaces (insertSpacesCount input s) (partContent s) (partContentCnt s)
         = (partContent s @ concat hs, partContentCnt s + length hs)"
      using insertArrowAndSpaces_glyphs by blast
    have "noCR (concat hs)" using hs(1) noCR_whitespaceGlyphs by (intro noCR_concat) blast
    then show ?thesis
      using partContent_renderWhitespaceChar[of input s] True hs(2) assms
      by (simp add: crInv_def)
  next
    case False
    then show ?thesis
      using partContent_renderWhitespaceChar[of input s] assms by (simp add: crInv_def)
  qed
  then show "crInv (renderWhitespaceChar input s)"
    and "crInv ((renderWhitespaceChar input s)\<lparr>charIndex := c\<rparr>)"
    using assms by (simp_all add: crInv_def)
qed

lemma crInv_updates [simp]:
  "crInv (s\<lparr>charOffsetInPart' := v\<rparr>) = crInv s"
  "crInv (s\<lparr>partContentCnt := c\<rparr>) = crInv s"
  by (simp_all add: crInv_def)

lemma plainLoop_noCR:
  assumes "crInv s0"
  shows "case plainLoop input k to s0 of
           Continue s' \<Rightarrow> crInv s'
         | Return r \<Rightarrow> noCR (output' r)"
proof -
  have rule: "case plainLoop input k to s0 of
           Continue s' \<Rightarrow> crInv s' \<and> \<not> int (charIndex s') < to
         | Return r \<Rightarrow> \<exists>s. crInv s \<and> int (charIndex s) < to
              \<and> charBreakIndex input \<le> int (charIndex s)
              \<and> r = \<lparr>charOffsetInPart = array_set (charOffsetInPartArr (renderPlainChar input s))
                        (charIndex s) (charOffsetInPart' (renderPlainChar input s)),
                      lastRenderedPartIndex = int k,
                      output' = out (renderPlainChar input s) @ lit ''&hellip;</span></span>''\<rparr>"
  proof (rule plainLoop_rule[where Q = crInv])
    show "crInv s0" by (rule assms)
  next
    fix s
    assume "crInv s"
    then show "crInv ((renderPlainChar input s)\<lparr>charIndex := charIndex s + 1\<rparr>)"
      by (rule crInv_plain(2))
  qed
  show ?thesis
  proof (cases "plainLoop input k to s0")
    case (Continue s')
    then show ?thesis using rule by simp
  next
    case (Return r)
    with rule obtain s where s: "crInv s"
      and r: "output' r = out (renderPlainChar input s) @ lit ''&hellip;</span></span>''"
      by auto
    have "noCR (output' r)" unfolding r using crInv_plain(1)[OF s, of input]
      by (simp add: crInv_def)
    then show ?thesis using Return by simp
  qed
qed

lemma whitespaceLoop_noCR:
  assumes "crInv s0" "noCR (type part)"
  shows "case whitespaceLoop js input part k to s0 of
           Continue s' \<Rightarrow> crInv s'
         | Return r \<Rightarrow> noCR (output' r)"
proof -
  have rule: "case whitespaceLoop js input part k to s0 of
           Continue s' \<Rightarrow> crInv s' \<and> \<not> int (charIndex s') < to
         | Return r \<Rightarrow> \<exists>s. crInv s \<and> int (charIndex s) < to
              \<and> charBreakIndex input \<le> int (charIndex s)
              \<and> r = \<lparr>charOffsetInPart = array_set (charOffsetInPartArr (renderWhitespaceChar input s))
                        (charIndex s) (charOffsetInPart' (renderWhitespaceChar input s)),
                      lastRenderedPartIndex = int k,
                      output' = out (renderWhitespaceChar input s)
                        @ whitespaceSpanOpen js input part (renderWhitespaceChar input s)
                        @ partContent (renderWhitespaceChar input s)
                        @ lit ''&hellip;</span></span>''\<rparr>"
  proof (rule whitespaceLoop_rule[where js = js, where Q = crInv])
    show "crInv s0" by (rule assms)
  next
    fix s
    assume "crInv s"
    then show "crInv ((renderWhitespaceChar input s)\<lparr>charIndex := charIndex s + 1\<rparr>)"
      by (rule crInv_whitespace(2))
  qed
  show ?thesis
  proof (cases "whitespaceLoop js input part k to s0")
    case (Continue s')
    then show ?thesis using rule by simp
  next
    case (Return r)
    with rule obtain s where s: "crInv s"
      and r: "output' r = out (renderWhitespaceChar input s)
                        @ whitespaceSpanOpen js input part (renderWhitespaceChar input s)
                        @ partContent (renderWhitespaceChar input s)
                        @ lit ''&hellip;</span></span>''"
      by auto
    have "noCR (output' r)" unfolding r using crInv_whitespace(1)[OF s, of input] assms(2)
      by (simp add: crInv_def whitespaceSpanOpen_def)
    then show ?thesis using Return by simp
  qed
qed

lemma renderPart_noCR:
  assumes inv: "crInv s0" and ty: "noCR (type (parts input ! k))"
  shows "case renderPart js input k s0 of
           Continue s' \<Rightarrow> crInv s'
         | Return r \<Rightarrow> noCR (output' r)"
proof (cases "parsRendersWhitespace input (parts input ! k)")
  case True
  let ?s = "s0\<lparr>charOffsetInPart' := Num 0, partContentCnt := 0, partContent := []\<rparr>"
  have "crInv ?s" using inv by (simp add: crInv_def)
  note loop = whitespaceLoop_noCR[where js = js, OF this ty, where input = input and k = k
      and to = "toCharIndex input k"]
  show ?thesis
  proof (cases "whitespaceLoop js input (parts input ! k) k (toCharIndex input k) ?s")
    case (Return r)
    then show ?thesis using loop by (simp add: renderPart_whitespace[where js = js, OF True])
  next
    case (Continue s')
    then show ?thesis using loop ty
      by (simp add: renderPart_whitespace[where js = js, OF True] crInv_def whitespaceSpanOpen_def)
  qed
next
  case False
  let ?s = \<open>s0\<lparr>charOffsetInPart' := Num 0,
     out := out s0 @ lit ''<span class="token '' @ type (parts input ! k) @ lit ''">''\<rparr>\<close>
  have "crInv ?s" using inv ty by (simp add: crInv_def)
  note loop = plainLoop_noCR[OF this, where input = input and k = k
      and to = "toCharIndex input k"]
  show ?thesis
  proof (cases "plainLoop input k (toCharIndex input k) ?s")
    case (Return r)
    then show ?thesis using loop by (simp add: renderPart_plain[where js = js, OF False])
  next
    case (Continue s')
    then show ?thesis using loop
      by (simp add: renderPart_plain[where js = js, OF False] crInv_def)
  qed
qed

lemma renderLineActual_noCR:
  assumes "\<forall>p\<in>set (parts input). noCR (type p)"
  shows "noCR (output' (renderLineActual js input))"
proof -
  have rule: "case partsLoop js input 0 initialLocals of
           Continue s' \<Rightarrow> \<exists>k. crInv s' \<and> \<not> k < length (parts input) \<and> 0 \<le> k
         | Return r \<Rightarrow> \<exists>k s. crInv s \<and> k < length (parts input) \<and> 0 \<le> k
              \<and> renderPart js input k s = Return r"
  proof (rule partsLoop_rule[where js = js, where Q = "\<lambda>k. crInv" and ?k0.0 = 0])
    show "crInv initialLocals" by (simp add: crInv_def initialLocals_def)
  next
    fix k s s'
    assume "crInv s" "k < length (parts input)" "renderPart js input k s = Continue s'"
    then show "crInv s'" using renderPart_noCR[where js = js, of s input k] assms by simp
  qed
  show ?thesis
  proof (cases "partsLoop js input 0 initialLocals")
    case (Continue s')
    then show ?thesis using rule by (auto simp: renderLineActual_def crInv_def)
  next
    case (Return r)
    with rule obtain k s where "crInv s" "k < length (parts input)"
      "renderPart js input k s = Return r" by auto
    then have "noCR (output' r)" using renderPart_noCR[where js = js, of s input k] assms by simp
    then show ?thesis using Return by (simp add: renderLineActual_def)
  qed
qed

section \<open>Carriage returns\<close>

text \<open>
  Claim C9, as the code has it. The plain branch emits the marker \<^verbatim>\<open>&#8203\<close> of a zero-width
  space for a carriage return. The markup returned contains no carriage return, provided
  that no category label of a part contains one: the labels are copied into the markup as
  they are.
\<close>

theorem carriage_return_never_literal:
  "(charCodeAt (lineContent input) (charIndex s) = Some CharCode_CarriageReturn \<longrightarrow>
      out (renderPlainChar input s) = out s @ lit ''&#8203'')
   \<and> ((\<forall>p\<in>set (parts input). CharCode_CarriageReturn \<notin> set (type p))
        \<and> renderLine js input = Inr r \<longrightarrow>
      CharCode_CarriageReturn \<notin> set (output' r))"
proof -
  have cr: "out (renderPlainChar input s) = out s @ lit ''&#8203''"
    if "charCodeAt (lineContent input) (charIndex s) = Some CharCode_CarriageReturn"
    using that by (simp add: renderPlainChar_def plainCharMarkup_def Let_def CharCode_defs)
  have markup: "CharCode_CarriageReturn \<notin> set (output' r)"
    if labels: "\<forall>p\<in>set (parts input). CharCode_CarriageReturn \<notin> set (type p)"
      and r: "renderLine js input = Inr r"
  proof (cases "lineTextLength input = 0")
    case True
    then have "output' r = lit ''<span><span>&nbsp;</span></span>''"
      using r by (auto simp: renderLine_def)
    then show ?thesis using noCR_literals(12) by (simp add: noCR_def)
  next
    case False
    then have "r = renderLineActual js input"
      using r by (auto simp: renderLine_def split: if_splits)
    then show ?thesis using renderLineActual_noCR[where js = js, of input] labels by (simp add: noCR_def)
  qed
  show ?thesis using cr markup by blast
qed

theorem carriage_return_never_literal_witness:
  \<open>renderLine wholeNumbers \<lparr>lineContent = [97, CharCode_CarriageReturn], tabSize = 4, spaceWidth = (7::int),
        stopRenderingLineAfter = - 1, renderWhitespace = RW_none, renderHardSpace = False,
        renderControlCharacters = True,
        parts = [\<lparr>startIndex = 0, type = lit ''plain''\<rparr>]\<rparr>
     = Inr \<lparr>charOffsetInPart = [Num 0, Num 1, Num 2], lastRenderedPartIndex = 0,
            output' = lit ''<span><span class="token plain">a&#8203</span></span>''\<rparr>
   \<and> CharCode_CarriageReturn
       \<notin> set (output' \<lparr>charOffsetInPart = [Num 0, Num 1, Num 2], lastRenderedPartIndex = 0,
            output' = lit ''<span><span class="token plain">a&#8203</span></span>''\<rparr>)\<close>
proof -
  let ?X = "\<lparr>lineContent = [97, CharCode_CarriageReturn], tabSize = 4, spaceWidth = (7::int),
        stopRenderingLineAfter = - 1, renderWhitespace = RW_none, renderHardSpace = False,
        renderControlCharacters = True,
        parts = [\<lparr>startIndex = 0, type = lit ''plain''\<rparr>]\<rparr>"
  let ?R = \<open>\<lparr>charOffsetInPart = [Num 0, Num 1, Num 2], lastRenderedPartIndex = 0,
            output' = lit ''<span><span class="token plain">a&#8203</span></span>''\<rparr>\<close>
  have r: "renderLine wholeNumbers ?X = Inr ?R"
    by (simp add: renderLine_unfold plain_unfold parsRendersWhitespace_def lit_def)
  have labels: "\<forall>p\<in>set (parts ?X). CharCode_CarriageReturn \<notin> set (type p)"
    by (simp add: lit_def CharCode_defs)
  from carriage_return_never_literal[where input = ?X and s = initialLocals and r = ?R and js = wholeNumbers] labels r
  have "CharCode_CarriageReturn \<notin> set (output' ?R)" by blast
  then show ?thesis using r by simp
qed

theorem carriage_return_never_literal_counterexample:
  \<open>renderLine wholeNumbers \<lparr>lineContent = [97], tabSize = 4, spaceWidth = (7::int),
        stopRenderingLineAfter = - 1, renderWhitespace = RW_none, renderHardSpace = False,
        renderControlCharacters = False,
        parts = [\<lparr>startIndex = 0, type = [CharCode_CarriageReturn]\<rparr>]\<rparr>
     = Inr \<lparr>charOffsetInPart = [Num 0, Num 1], lastRenderedPartIndex = 0,
            output' = lit ''<span><span class="token '' @ [CharCode_CarriageReturn]
              @ lit ''">a</span></span>''\<rparr>
   \<and> CharCode_CarriageReturn
       \<in> set (lit ''<span><span class="token '' @ [CharCode_CarriageReturn]
              @ lit ''">a</span></span>'')\<close>
  by (simp add: renderLine_unfold plain_unfold parsRendersWhitespace_def lit_def)

section \<open>The markup and the table of a cut line\<close>














section \<open>Where a cut line stops\<close>




end
